theory Spec2Isabelle
  imports Main "HOL-Library.Word" "HOL-Library.Sublist" "HOL-Library.Log_Nat"
begin

section \<open>Strings and regular expressions of the source language\<close>

text \<open>
  A JavaScript string is a sequence of 16-bit code units. The regular expressions of the
  sources carry no \<open>u\<close> or \<open>i\<close> flag, so they match code unit by code unit. \<open>js\<close> embeds an
  ASCII literal.
\<close>

type_synonym jsstring = "16 word list"

definition js :: "string \<Rightarrow> jsstring" where
  "js s = map of_char s"

text \<open>
  The character classes that occur in the sources: \<open>[A-Z]\<close>, \<open>\d\<close>, \<open>\s\<close> (the white space
  and line terminator code points of the language standard) and a single literal unit.
\<close>

datatype cls = Upper | Digit | Space | Only "16 word"

fun in_cls :: "cls \<Rightarrow> 16 word \<Rightarrow> bool" where
  "in_cls Upper c = (0x41 \<le> c \<and> c \<le> 0x5A)"
| "in_cls Digit c = (0x30 \<le> c \<and> c \<le> 0x39)"
| "in_cls Space c = (c \<in> set [0x09, 0x0A, 0x0B, 0x0C, 0x0D, 0x20, 0xA0, 0x1680,
      0x2000, 0x2001, 0x2002, 0x2003, 0x2004, 0x2005, 0x2006, 0x2007, 0x2008, 0x2009, 0x200A,
      0x2028, 0x2029, 0x202F, 0x205F, 0x3000, 0xFEFF])"
| "in_cls (Only d) c = (c = d)"

text \<open>
  The fragment of regular expressions the sources use: a literal string, a greedy
  quantifier \<open>{m,n}\<close> (\<open>None\<close> for no upper bound) over a one-unit class, sequence,
  alternative, a greedy optional group, and the end anchor \<open>$\<close>.
\<close>

datatype rx = Lit jsstring | Rep cls nat "nat option" | Seq rx rx | Alt rx rx | Opt rx | Eos

definition rep_max :: "cls \<Rightarrow> nat option \<Rightarrow> jsstring \<Rightarrow> nat" where
  "rep_max a n s = (let k = length (takeWhile (in_cls a) s)
                    in case n of None \<Rightarrow> k | Some b \<Rightarrow> min k b)"

text \<open>
  The backtracking matcher. \<open>ms r s\<close> lists, in the order in which the engine tries them,
  the remainders of \<open>s\<close> after each way of matching \<open>r\<close> at the start of \<open>s\<close>. A greedy
  quantifier tries the longest repetition first; an optional group tries the group first and
  rejects an empty iteration.
\<close>

primrec ms :: "rx \<Rightarrow> jsstring \<Rightarrow> jsstring list" where
  "ms (Lit w) s = (if prefix w s then [drop (length w) s] else [])"
| "ms (Rep a m n) s = map (\<lambda>i. drop i s) (rev [m..<Suc (rep_max a n s)])"
| "ms (Seq r1 r2) s = concat (map (ms r2) (ms r1 s))"
| "ms (Alt r1 r2) s = ms r1 s @ ms r2 s"
| "ms (Opt r) s = filter (\<lambda>t. length t < length s) (ms r s) @ [s]"
| "ms Eos s = (if s = [] then [s] else [])"

text \<open>The match the engine reports at a position is the first one it finds.\<close>

definition first_match :: "rx \<Rightarrow> jsstring \<Rightarrow> jsstring option" where
  "first_match r s = (case ms r s of [] \<Rightarrow> None | t # _ \<Rightarrow> Some t)"

text \<open>
  The declarative reading of a pattern: \<open>den r t\<close> is the set of strings that \<open>r\<close> matches
  when \<open>t\<close> is what follows (only \<open>$\<close> looks at what follows).
\<close>

primrec den :: "rx \<Rightarrow> jsstring \<Rightarrow> jsstring set" where
  "den (Lit w) t = {w}"
| "den (Rep a m n) t = {p. (\<forall>c\<in>set p. in_cls a c) \<and> m \<le> length p \<and>
                            (case n of None \<Rightarrow> True | Some b \<Rightarrow> length p \<le> b)}"
| "den (Seq r1 r2) t = {p1 @ p2 | p1 p2. p2 \<in> den r2 t \<and> p1 \<in> den r1 (p2 @ t)}"
| "den (Alt r1 r2) t = den r1 t \<union> den r2 t"
| "den (Opt r) t = insert [] (den r t)"
| "den Eos t = (if t = [] then {[]} else {})"

text \<open>
  \<open>String.prototype.replace\<close> with a regular expression and a replacement string without
  \<open>$\<close> patterns. With the \<open>g\<close> flag every match is replaced, scanning from left to right and
  resuming after each match (after an empty match one unit is copied); without it only the
  leftmost match is replaced.
\<close>

function replace_all :: "rx \<Rightarrow> jsstring \<Rightarrow> jsstring \<Rightarrow> jsstring" where
  "replace_all r repl s =
     (case first_match r s of
        Some t \<Rightarrow>
          (if length t < length s then repl @ replace_all r repl t
           else repl @ (case s of [] \<Rightarrow> [] | c # cs \<Rightarrow> c # replace_all r repl cs))
      | None \<Rightarrow> (case s of [] \<Rightarrow> [] | c # cs \<Rightarrow> c # replace_all r repl cs))"
  by pat_completeness auto
termination
  by (relation "measure (\<lambda>(r, repl, s). length s)") auto

fun replace_first :: "rx \<Rightarrow> jsstring \<Rightarrow> jsstring \<Rightarrow> jsstring" where
  "replace_first r repl [] = (case first_match r [] of Some t \<Rightarrow> repl @ t | None \<Rightarrow> [])"
| "replace_first r repl (c # cs) =
     (case first_match r (c # cs) of
        Some t \<Rightarrow> repl @ t
      | None \<Rightarrow> c # replace_first r repl cs)"

text \<open>\<open>String.prototype.includes\<close>: the argument occurs as a contiguous substring.\<close>

fun includes_str :: "jsstring \<Rightarrow> jsstring \<Rightarrow> bool" where
  "includes_str [] w = (w = [])"
| "includes_str (c # cs) w = (prefix w (c # cs) \<or> includes_str cs w)"

text \<open>\<open>String.prototype.endsWith\<close>.\<close>

definition endsWith :: "jsstring \<Rightarrow> jsstring \<Rightarrow> bool" where
  "endsWith s w = suffix w s"

section \<open>The identifier parser (file\_processor.js)\<close>

text \<open>
  \<open>getBaseSubjectName\<close> is
  \<^verbatim>\<open>subject.replace(/\s*\(\d{4}\)\s*/g, "").replace(/_+$/, "")\<close>.
\<close>

definition year_rx :: rx where
  "year_rx = Seq (Rep Space 0 None) (Seq (Lit (js ''(''))
     (Seq (Rep Digit 4 (Some 4)) (Seq (Lit (js '')'')) (Rep Space 0 None))))"

definition trailing_underscores_rx :: rx where
  "trailing_underscores_rx = Seq (Rep (Only 0x5F) 1 None) Eos"

definition getBaseSubjectName :: "jsstring \<Rightarrow> jsstring" where
  "getBaseSubjectName subject =
     replace_first trailing_underscores_rx [] (replace_all year_rx [] subject)"

text \<open>\<open>isMathSubject\<close>: membership of the raw name in a list of three names.\<close>

definition isMathSubject :: "jsstring \<Rightarrow> bool" where
  "isMathSubject subject \<longleftrightarrow>
     subject \<in> set [js ''Mathematics'', js ''Further_Mathematics'', js ''Pure_Mathematics'']"

text \<open>
  \<open>parseUnitCode\<close> is
  \<^verbatim>\<open>filename.match(/^([A-Z]{2,3}\d{2}(?:-\d{2})?[A-Z]?)/)\<close>; the pattern starts with
  \<open>^\<close> and has no \<open>m\<close> flag, so it is tried at index 0 only, and the function returns the
  text of the match or \<open>null\<close> (here \<open>None\<close>). \<open>code_tail\<close> names the last two factors of the
  pattern.
\<close>

definition unit_code_rx :: rx where
  "unit_code_rx = Seq (Rep Upper 2 (Some 3)) (Seq (Rep Digit 2 (Some 2))
     (Seq (Opt (Seq (Lit (js ''-'')) (Rep Digit 2 (Some 2)))) (Rep Upper 0 (Some 1))))"

definition code_tail :: rx where
  "code_tail = Seq (Opt (Seq (Lit (js ''-'')) (Rep Digit 2 (Some 2)))) (Rep Upper 0 (Some 1))"

definition parseUnitCode :: "jsstring \<Rightarrow> jsstring option" where
  "parseUnitCode filename =
     (case first_match unit_code_rx filename of
        None \<Rightarrow> None
      | Some t \<Rightarrow> Some (take (length filename - length t) filename))"

text \<open>
  The specification's description of a unit code, in its own words: two or three upper-case
  letters, two digits, an optional hyphen with two digits, an optional upper-case letter.
\<close>

definition spec_unit_code :: "jsstring \<Rightarrow> bool" where
  "spec_unit_code p \<longleftrightarrow> (\<exists>l d h c. p = l @ d @ h @ c \<and>
      (length l = 2 \<or> length l = 3) \<and> (\<forall>x\<in>set l. in_cls Upper x) \<and>
      length d = 2 \<and> (\<forall>x\<in>set d. in_cls Digit x) \<and>
      (h = [] \<or> (\<exists>e. h = 0x2D # e \<and> length e = 2 \<and> (\<forall>x\<in>set e. in_cls Digit x))) \<and>
      (c = [] \<or> (\<exists>x. c = [x] \<and> in_cls Upper x)))"

text \<open>
  The specification's ``parenthesized 4-digit year token'': an opening parenthesis, four
  digits, a closing parenthesis, at the start of a string or anywhere in it.
\<close>

fun year_token_at :: "jsstring \<Rightarrow> bool" where
  "year_token_at (a # b # c # d # e # f # rest) \<longleftrightarrow>
     a = 0x28 \<and> in_cls Digit b \<and> in_cls Digit c \<and> in_cls Digit d \<and> in_cls Digit e \<and> f = 0x29"
| "year_token_at _ \<longleftrightarrow> False"

fun has_year_token :: "jsstring \<Rightarrow> bool" where
  "has_year_token [] \<longleftrightarrow> False"
| "has_year_token (c # cs) \<longleftrightarrow> year_token_at (c # cs) \<or> has_year_token cs"

section \<open>The progress ledger (ProgressTracker)\<close>

text \<open>
  The ledger keeps, for \<open>completed\<close> and for \<open>failed\<close>, an object nested by qualification
  type, session and subject, with an array of unit names at the leaves, an object from
  qualification type to an array of completed sessions, a time stamp and six counters. The
  objects are used as dictionaries and are modelled as maps, the arrays as lists. The key
  strings that reach the ledger (a constant qualification type, session labels that pass the
  session pattern, subject names that pass the subject filter) are never names of inherited
  object properties, so a lookup finds exactly what was stored. Counters are natural
  numbers: a JavaScript number counts without error below \<open>2 ^ 53\<close>, and the counters of a
  ledger are taken to stay below it. A time stamp is the reading of a clock. The counter \<open>stats.completedSessions\<close> is
  called \<open>completedSessionsCount\<close> here, since the name \<open>completedSessions\<close> is taken by the
  map.
\<close>

type_synonym units_tree = "jsstring \<rightharpoonup> (jsstring \<rightharpoonup> (jsstring \<rightharpoonup> jsstring list))"
type_synonym timestamp = nat

record stats =
  totalSessions :: nat
  totalSubjects :: nat
  totalUnits :: nat
  completedUnits :: nat
  failedUnits :: nat
  completedSessionsCount :: nat

record progress =
  completed :: units_tree
  failed :: units_tree
  completedSessions :: "jsstring \<rightharpoonup> jsstring list"
  lastUpdate :: "timestamp option"
  stats :: stats

text \<open>The object that \<open>getSummary\<close> returns: the six counters, the percentage text and the time stamp.\<close>

record summary = stats +
  progress_str :: jsstring
  summary_lastUpdate :: "timestamp option"

text \<open>
  The ledger file is absent, or holds text that is not JSON, or holds a ledger document: one
  written by the earlier version of the class (no \<open>completedSessions\<close> map and no
  \<open>completedSessions\<close> counter), or a full one. Documents of any other shape are outside this
  model.
\<close>

datatype ledger_doc =
    Legacy units_tree units_tree "timestamp option" nat nat nat nat nat
  | Full progress

datatype ledger_file = NoFile | Invalid | Doc ledger_doc

text \<open>A row of a score table and the artifact file that \<open>saveData\<close> writes for a unit.\<close>

record row =
  RAW :: int
  UMS :: int
  GRADE :: jsstring

record artifact =
  meta_qualificationType :: jsstring
  meta_session :: jsstring
  meta_subject :: jsstring
  meta_unit :: jsstring
  meta_recordCount :: nat
  meta_timestamp :: timestamp
  data_rows :: "row list"

text \<open>The calls to the page-driving functions of the navigation module, as the run makes them.\<close>

datatype action =
    NavigateToSession jsstring
  | SelectSubject jsstring
  | SelectUnit jsstring
  | SelectAllScoresTab
  | ExtractAllScoresData

text \<open>
  The state a run threads through: the tracker's \<open>this.progress\<close>, the content of the
  ledger file, the clock, the artifact files written so far, and the trace of adapter calls.
  Writing a file is taken to succeed.
\<close>

record run_state =
  progress :: progress
  disk :: ledger_file
  clock :: timestamp
  artifacts :: "artifact list"
  trace :: "action list"

text \<open>
  What the site shows, as a function of the labels selected: the result of
  \<open>extractAllScoresData\<close> (an error object or the rows), the behaviour of a unit's page
  (\<open>selectUnit\<close> raises, or the page has no tabs section, or the extraction raises, or it
  returns raw data), and the listings of sessions, subjects and units (\<open>Inl\<close> when the step
  raises, with the message of the error). The same labels always show the same thing.
\<close>

datatype raw_data = RawError jsstring | RawRows "row list"

datatype unit_page =
    SelectUnitThrows jsstring
  | NoTabsSection
  | ExtractThrows jsstring
  | Extracted raw_data

record site =
  sessionLinks :: "jsstring + jsstring list"
  subjectLinks :: "jsstring \<Rightarrow> jsstring + jsstring list"
  unitLinks :: "jsstring \<Rightarrow> jsstring \<Rightarrow> jsstring + jsstring list"
  unitPage :: "jsstring \<Rightarrow> jsstring \<Rightarrow> jsstring \<Rightarrow> unit_page"

text \<open>The constructor's initial \<open>this.progress\<close>.\<close>

definition ProgressTracker :: progress where
  "ProgressTracker =
     \<lparr>completed = Map.empty, failed = Map.empty, completedSessions = Map.empty,
      lastUpdate = None,
      stats = \<lparr>totalSessions = 0, totalSubjects = 0, totalUnits = 0,
               completedUnits = 0, failedUnits = 0, completedSessionsCount = 0\<rparr>\<rparr>"

text \<open>\<open>save\<close> stamps the time and overwrites the ledger file with the whole structure.\<close>

definition save :: "run_state \<Rightarrow> run_state" where
  "save st =
     (let p = (progress st)\<lparr>lastUpdate := Some (clock st)\<rparr>
      in st\<lparr>progress := p, disk := Doc (Full p), clock := clock st + 1\<rparr>)"

text \<open>
  \<open>initialize\<close>: on a document, \<open>this.progress\<close> becomes the parsed document, with the two
  fields of the later version filled in when they are missing; when reading or parsing
  raises, the handler saves the tracker as it stands.
\<close>

fun parsed :: "ledger_doc \<Rightarrow> progress" where
  "parsed (Full p) = p"
| "parsed (Legacy c f l ts tsub tu cu fu) =
     \<lparr>completed = c, failed = f, completedSessions = Map.empty, lastUpdate = l,
      stats = \<lparr>totalSessions = ts, totalSubjects = tsub, totalUnits = tu,
               completedUnits = cu, failedUnits = fu, completedSessionsCount = 0\<rparr>\<rparr>"

definition initialize :: "run_state \<Rightarrow> run_state" where
  "initialize st =
     (case disk st of
        Doc d \<Rightarrow> st\<lparr>progress := parsed d\<rparr>
      | _ \<Rightarrow> save st)"

text \<open>
  The nested lookup of \<open>isCompleted\<close> and \<open>hasFailed\<close>, and the nested insertion of
  \<open>markAsCompleted\<close> and \<open>markAsFailed\<close> (each missing level is created, the unit is pushed
  unless the array includes it); the flag tells whether the unit was pushed.
\<close>

definition tree_has :: "units_tree \<Rightarrow> jsstring \<Rightarrow> jsstring \<Rightarrow> jsstring \<Rightarrow> jsstring \<Rightarrow> bool" where
  "tree_has t q s subj u =
     (case t q of None \<Rightarrow> False
      | Some ts \<Rightarrow> (case ts s of None \<Rightarrow> False
         | Some tsub \<Rightarrow> (case tsub subj of None \<Rightarrow> False
            | Some us \<Rightarrow> u \<in> set us)))"

definition tree_add :: "units_tree \<Rightarrow> jsstring \<Rightarrow> jsstring \<Rightarrow> jsstring \<Rightarrow> jsstring \<Rightarrow> units_tree \<times> bool" where
  "tree_add t q s subj u =
     (let ts = (case t q of None \<Rightarrow> Map.empty | Some m \<Rightarrow> m);
          tsub = (case ts s of None \<Rightarrow> Map.empty | Some m \<Rightarrow> m);
          us = (case tsub subj of None \<Rightarrow> [] | Some l \<Rightarrow> l)
      in if u \<in> set us
         then (t(q \<mapsto> ts(s \<mapsto> tsub(subj \<mapsto> us))), False)
         else (t(q \<mapsto> ts(s \<mapsto> tsub(subj \<mapsto> us @ [u]))), True))"

definition isCompleted :: "progress \<Rightarrow> jsstring \<Rightarrow> jsstring \<Rightarrow> jsstring \<Rightarrow> jsstring \<Rightarrow> bool" where
  "isCompleted p q s subj u = tree_has (completed p) q s subj u"

definition hasFailed :: "progress \<Rightarrow> jsstring \<Rightarrow> jsstring \<Rightarrow> jsstring \<Rightarrow> jsstring \<Rightarrow> bool" where
  "hasFailed p q s subj u = tree_has (failed p) q s subj u"

definition isSessionCompleted :: "progress \<Rightarrow> jsstring \<Rightarrow> jsstring \<Rightarrow> bool" where
  "isSessionCompleted p q s =
     (case completedSessions p q of None \<Rightarrow> False | Some ss \<Rightarrow> s \<in> set ss)"

definition markSessionAsCompleted :: "jsstring \<Rightarrow> jsstring \<Rightarrow> progress \<Rightarrow> progress" where
  "markSessionAsCompleted q s p =
     (let ss = (case completedSessions p q of None \<Rightarrow> [] | Some l \<Rightarrow> l)
      in if s \<in> set ss
         then p\<lparr>completedSessions := (completedSessions p)(q \<mapsto> ss)\<rparr>
         else p\<lparr>completedSessions := (completedSessions p)(q \<mapsto> ss @ [s]),
                stats := (stats p)\<lparr>completedSessionsCount := completedSessionsCount (stats p) + 1\<rparr>\<rparr>)"

definition markAsCompleted :: "jsstring \<Rightarrow> jsstring \<Rightarrow> jsstring \<Rightarrow> jsstring \<Rightarrow> progress \<Rightarrow> progress" where
  "markAsCompleted q s subj u p =
     (case tree_add (completed p) q s subj u of
        (t, True) \<Rightarrow> p\<lparr>completed := t, stats := (stats p)\<lparr>completedUnits := completedUnits (stats p) + 1\<rparr>\<rparr>
      | (t, False) \<Rightarrow> p\<lparr>completed := t\<rparr>)"

definition markAsFailed :: "jsstring \<Rightarrow> jsstring \<Rightarrow> jsstring \<Rightarrow> jsstring \<Rightarrow> jsstring \<Rightarrow> progress \<Rightarrow> progress" where
  "markAsFailed q s subj u error p =
     (case tree_add (failed p) q s subj u of
        (t, True) \<Rightarrow> p\<lparr>failed := t, stats := (stats p)\<lparr>failedUnits := failedUnits (stats p) + 1\<rparr>\<rparr>
      | (t, False) \<Rightarrow> p\<lparr>failed := t\<rparr>)"

definition updateStats :: "nat \<Rightarrow> nat \<Rightarrow> nat \<Rightarrow> progress \<Rightarrow> progress" where
  "updateStats ts tsub tu p =
     p\<lparr>stats := (stats p)\<lparr>totalSessions := ts, totalSubjects := tsub, totalUnits := tu\<rparr>\<rparr>"

text \<open>
  \<open>getSummary\<close> computes \<^verbatim>\<open>Math.round((completedUnits / totalUnits) * 100)\<close> in
  double precision. A finite double is modelled by the rational it denotes; \<open>to_double\<close>
  rounds a rational to the nearest double with 53 significant bits, ties to even (the
  values that occur are far inside the normal range). \<open>Math.round\<close> rounds to the nearest
  integer, ties upwards. \<open>digits\<close> is the decimal text of a natural number; the text
  that a template literal gives a number is this one for the integers below \<open>2 ^ 53\<close>.
\<close>

definition binary_exponent :: "rat \<Rightarrow> int" where
  "binary_exponent x =
     (let (a, b) = quotient_of x; d = bitlen a - bitlen b
      in if 2 powi d \<le> x then d else d - 1)"

definition round_half_even :: "rat \<Rightarrow> int" where
  "round_half_even y =
     (let f = \<lfloor>y\<rfloor>; r = y - of_int f
      in if r < 1 / 2 then f else if 1 / 2 < r then f + 1 else if even f then f else f + 1)"

definition to_double :: "rat \<Rightarrow> rat" where
  "to_double x =
     (if x = 0 then 0
      else let u = 2 powi (binary_exponent x - 52)
           in of_int (round_half_even (x / u)) * u)"

definition Math_round :: "rat \<Rightarrow> int" where
  "Math_round x = \<lfloor>x + 1 / 2\<rfloor>"

definition percent :: "nat \<Rightarrow> nat \<Rightarrow> int" where
  "percent c t = Math_round (to_double (to_double (of_nat c / of_nat t) * 100))"

text \<open>
  The percentage as the words of the specification have it, for comparison: the exact
  quotient \<open>100 * completedUnits / totalUnits\<close>, rounded to the nearest integer.
\<close>

definition exact_percent :: "nat \<Rightarrow> nat \<Rightarrow> int" where
  "exact_percent c t = round (100 * of_nat c / of_nat t :: rat)"

fun digits :: "nat \<Rightarrow> jsstring" where
  "digits n = (if n < 10 then [0x30 + of_nat n] else digits (n div 10) @ [0x30 + of_nat (n mod 10)])"

definition getSummary :: "progress \<Rightarrow> summary" where
  "getSummary p =
     \<lparr>totalSessions = totalSessions (stats p),
      totalSubjects = totalSubjects (stats p),
      totalUnits = totalUnits (stats p),
      completedUnits = completedUnits (stats p),
      failedUnits = failedUnits (stats p),
      completedSessionsCount = completedSessionsCount (stats p),
      progress_str =
        (if totalUnits (stats p) > 0
         then digits (nat (percent (completedUnits (stats p)) (totalUnits (stats p)))) @ js ''%''
         else js ''0%''),
      summary_lastUpdate = lastUpdate p\<rparr>"


section \<open>The orchestrator (scraper.js)\<close>

text \<open>
  The constants of the module. The lower-casing of strings is a table of the language
  standard and is a parameter of the functions that use it.
\<close>

definition QUALIFICATION_TYPE :: jsstring where
  "QUALIFICATION_TYPE = js ''International A Level''"

definition FILTER_SUBJECTS :: "jsstring list" where
  "FILTER_SUBJECTS = [js ''Physics'', js ''Chemistry'', js ''Biology'', js ''Mathematics'',
     js ''Further Mathematics'', js ''Pure Mathematics'', js ''Accounting'', js ''Economics'',
     js ''Business'']"

definition shouldProcessSubject :: "(jsstring \<Rightarrow> jsstring) \<Rightarrow> jsstring \<Rightarrow> bool" where
  "shouldProcessSubject toLowerCase subject =
     (if FILTER_SUBJECTS = [] then True
      else list_ex (\<lambda>filterTerm. includes_str (toLowerCase subject) (toLowerCase filterTerm))
             FILTER_SUBJECTS)"

text \<open>The session filter \<^verbatim>\<open>/^(January|June|October)\s+\d{4}$/.test(session)\<close>.\<close>

definition session_rx :: rx where
  "session_rx = Seq (Alt (Lit (js ''January'')) (Alt (Lit (js ''June'')) (Lit (js ''October''))))
     (Seq (Rep Space 1 None) (Seq (Rep Digit 4 (Some 4)) Eos))"

definition valid_session :: "jsstring \<Rightarrow> bool" where
  "valid_session session \<longleftrightarrow> first_match session_rx session \<noteq> None"

text \<open>
  \<open>processData\<close>: the rows, sorted by \<open>UMS\<close> in descending order (the sort is stable); no rows
  when the extraction reported an error. \<open>saveData\<close> writes the artifact of a unit.
\<close>

definition processData :: "raw_data \<Rightarrow> row list" where
  "processData rawData =
     (case rawData of
        RawRows rows \<Rightarrow> sort_key (\<lambda>r. - UMS r) rows
      | RawError e \<Rightarrow> [])"

definition saveData :: "row list \<Rightarrow> jsstring \<Rightarrow> jsstring \<Rightarrow> jsstring \<Rightarrow> jsstring \<Rightarrow> run_state \<Rightarrow> run_state" where
  "saveData processedData q s subj u st =
     st\<lparr>artifacts := artifacts st @
           [\<lparr>meta_qualificationType = q, meta_session = s, meta_subject = subj, meta_unit = u,
             meta_recordCount = length processedData, meta_timestamp = clock st,
             data_rows = processedData\<rparr>],
        clock := clock st + 1\<rparr>"

text \<open>A call of a tracker method and a call of an adapter function, on the run state.\<close>

definition tracker :: "(progress \<Rightarrow> progress) \<Rightarrow> run_state \<Rightarrow> run_state" where
  "tracker f st = st\<lparr>progress := f (progress st)\<rparr>"

definition adapter :: "action \<Rightarrow> run_state \<Rightarrow> run_state" where
  "adapter a st = st\<lparr>trace := trace st @ [a]\<rparr>"

text \<open>
  \<open>processUnit\<close> returns whether the unit was extracted and saved, or raises (\<open>Inl\<close>) what
  the adapter raised.
\<close>

definition processUnit ::
  "site \<Rightarrow> jsstring \<Rightarrow> jsstring \<Rightarrow> jsstring \<Rightarrow> jsstring \<Rightarrow> run_state \<Rightarrow> (jsstring + bool) \<times> run_state" where
  "processUnit site qualType s subj u st =
     (let st1 = adapter (SelectUnit u) st
      in case unitPage site s subj u of
           SelectUnitThrows e \<Rightarrow> (Inl e, st1)
         | NoTabsSection \<Rightarrow>
             (Inr False,
              save (tracker (markAsFailed qualType s subj u (js ''No tabs section found'')) st1))
         | ExtractThrows e \<Rightarrow>
             (Inl e, adapter ExtractAllScoresData (adapter SelectAllScoresTab st1))
         | Extracted rawData \<Rightarrow>
             (let st2 = adapter ExtractAllScoresData (adapter SelectAllScoresTab st1);
                  processedData = processData rawData
              in if length processedData = 0
                 then (Inr False,
                       save (tracker (markAsFailed qualType s subj u (js ''No data extracted'')) st2))
                 else (Inr True,
                       save (tracker (markAsCompleted qualType s subj u)
                               (saveData processedData qualType s subj u st2)))))"

text \<open>
  The loop over the units in \<open>processSubject\<close>, with its counter \<open>processedUnits\<close>, and
  \<open>processSubject\<close> itself, which returns the pair \<open>(totalUnits, processedUnits)\<close> or raises.
\<close>

fun process_units ::
  "site \<Rightarrow> jsstring \<Rightarrow> jsstring \<Rightarrow> jsstring \<Rightarrow> jsstring list \<Rightarrow> nat \<Rightarrow> run_state \<Rightarrow> nat \<times> run_state" where
  "process_units site qualType s subj [] processedUnits st = (processedUnits, st)"
| "process_units site qualType s subj (u # us) processedUnits st =
     (if isCompleted (progress st) qualType s subj u
      then process_units site qualType s subj us (processedUnits + 1) st
      else if hasFailed (progress st) qualType s subj u
      then process_units site qualType s subj us (processedUnits + 1) st
      else case processUnit site qualType s subj u st of
             (Inr success, st') \<Rightarrow>
               process_units site qualType s subj us
                 (if success then processedUnits + 1 else processedUnits) st'
           | (Inl message, st') \<Rightarrow>
               process_units site qualType s subj us (processedUnits + 1)
                 (save (tracker (markAsFailed qualType s subj u message) st')))"

definition processSubject ::
  "site \<Rightarrow> jsstring \<Rightarrow> jsstring \<Rightarrow> jsstring \<Rightarrow> run_state \<Rightarrow> (jsstring + nat \<times> nat) \<times> run_state" where
  "processSubject site qualType s subj st =
     (let st1 = adapter (SelectSubject subj) st
      in case unitLinks site s subj of
           Inl e \<Rightarrow> (Inl e, st1)
         | Inr units \<Rightarrow>
             (let currentStats = getSummary (progress st1);
                  st2 = save (tracker (updateStats (totalSessions currentStats)
                                  (totalSubjects currentStats)
                                  (totalUnits currentStats + length units)) st1)
              in if length units = 0 then (Inr (0, 0), st2)
                 else (case process_units site qualType s subj units 0 st2 of
                         (processedUnits, st3) \<Rightarrow> (Inr (length units, processedUnits), st3))))"

text \<open>
  The loops of \<open>scrapeSeries\<close> over the filtered subjects of a session and over the valid
  sessions. The module's local counter \<open>totalSubjects\<close> is \<open>runSubjects\<close> here; its local
  \<open>totalUnits\<close> is never assigned after its initialisation and is the constant 0.
\<close>

fun process_subjects ::
  "site \<Rightarrow> jsstring \<Rightarrow> jsstring list \<Rightarrow> nat \<Rightarrow> nat \<Rightarrow> run_state \<Rightarrow> (nat \<times> nat) \<times> run_state" where
  "process_subjects site s [] sessionTotalUnits sessionProcessedUnits st =
     ((sessionTotalUnits, sessionProcessedUnits), st)"
| "process_subjects site s (subj # subjs) sessionTotalUnits sessionProcessedUnits st =
     (case processSubject site QUALIFICATION_TYPE s subj st of
        (Inr (subjectTotal, subjectProcessed), st') \<Rightarrow>
          process_subjects site s subjs (sessionTotalUnits + subjectTotal)
            (sessionProcessedUnits + subjectProcessed) st'
      | (Inl subjectError, st') \<Rightarrow>
          process_subjects site s subjs sessionTotalUnits sessionProcessedUnits st')"

fun process_sessions ::
  "(jsstring \<Rightarrow> jsstring) \<Rightarrow> site \<Rightarrow> nat \<Rightarrow> jsstring list \<Rightarrow> nat \<Rightarrow> run_state \<Rightarrow> run_state" where
  "process_sessions toLowerCase site n [] runSubjects st = st"
| "process_sessions toLowerCase site n (s # ss) runSubjects st =
     (if isSessionCompleted (progress st) QUALIFICATION_TYPE s
      then process_sessions toLowerCase site n ss runSubjects st
      else let st1 = adapter (NavigateToSession s) st
           in case subjectLinks site s of
                Inl error \<Rightarrow> process_sessions toLowerCase site n ss runSubjects st1
              | Inr subjects \<Rightarrow>
                  (let filteredSubjects = filter (shouldProcessSubject toLowerCase) subjects;
                       runSubjects' = runSubjects + length filteredSubjects;
                       st2 = save (tracker (updateStats n runSubjects' 0) st1)
                   in case process_subjects site s filteredSubjects 0 0 st2 of
                        ((sessionTotalUnits, sessionProcessedUnits), st3) \<Rightarrow>
                          process_sessions toLowerCase site n ss runSubjects'
                            (if sessionTotalUnits > 0 \<and> sessionProcessedUnits = sessionTotalUnits
                             then save (tracker (markSessionAsCompleted QUALIFICATION_TYPE s) st3)
                             else st3)))"

text \<open>
  \<open>scrapeSeries\<close>, from the content of the ledger file, the time and the artifact files
  present. The steps before the session list (launching the browser, the cookie banner,
  choosing the qualification) either raise or produce the list: \<open>sessionLinks\<close>.
\<close>

definition scrapeSeries ::
  "(jsstring \<Rightarrow> jsstring) \<Rightarrow> site \<Rightarrow> ledger_file \<Rightarrow> timestamp \<Rightarrow> artifact list \<Rightarrow> jsstring + run_state" where
  "scrapeSeries toLowerCase site ledger now files =
     (let st0 = initialize \<lparr>progress = ProgressTracker, disk = ledger, clock = now,
                            artifacts = files, trace = []\<rparr>
      in case sessionLinks site of
           Inl e \<Rightarrow> Inl e
         | Inr sessionsList \<Rightarrow>
             (let validSessions = filter valid_session sessionsList
              in if length validSessions = 0 then Inl (js ''No valid exam sessions found'')
                 else Inr (save (process_sessions toLowerCase site (length validSessions)
                                   validSessions 0
                                   (save (tracker (updateStats (length validSessions) 0 0) st0))))))"

text \<open>
  Notions for stating what a run does. An adapter call is at the unit level when it selects
  a unit, selects the score tab or extracts the table. A unit is decided when the ledger
  has it as completed or as failed; a subject is settled when every unit of its listing is
  decided (or its listing raises), a session when every subject that passes the filter is.
  A ledger grows into another when it keeps every unit, every session flag and the number
  of sessions; a state follows another quietly when the ledger's sets of units and their
  two counters, the number of sessions and the artifact files are the same, no session flag
  is lost, and the adapter calls added are not at the unit level.
\<close>

definition unit_level :: "action \<Rightarrow> bool" where
  "unit_level a = (case a of SelectUnit u \<Rightarrow> True | SelectAllScoresTab \<Rightarrow> True
                    | ExtractAllScoresData \<Rightarrow> True | _ \<Rightarrow> False)"

definition decided :: "progress \<Rightarrow> jsstring \<Rightarrow> jsstring \<Rightarrow> jsstring \<Rightarrow> bool" where
  "decided p s subj u \<longleftrightarrow>
     isCompleted p QUALIFICATION_TYPE s subj u \<or> hasFailed p QUALIFICATION_TYPE s subj u"

definition subject_settled :: "site \<Rightarrow> progress \<Rightarrow> jsstring \<Rightarrow> jsstring \<Rightarrow> bool" where
  "subject_settled site p s subj \<longleftrightarrow>
     (case unitLinks site s subj of Inl e \<Rightarrow> True | Inr units \<Rightarrow> list_all (decided p s subj) units)"

definition session_settled :: "(jsstring \<Rightarrow> jsstring) \<Rightarrow> site \<Rightarrow> progress \<Rightarrow> jsstring \<Rightarrow> bool" where
  "session_settled toLowerCase site p s \<longleftrightarrow>
     (case subjectLinks site s of
        Inl e \<Rightarrow> True
      | Inr subjects \<Rightarrow>
          list_all (subject_settled site p s) (filter (shouldProcessSubject toLowerCase) subjects))"

definition grows :: "progress \<Rightarrow> progress \<Rightarrow> bool" where
  "grows p p' \<longleftrightarrow>
     (\<forall>s subj u. isCompleted p QUALIFICATION_TYPE s subj u \<longrightarrow> isCompleted p' QUALIFICATION_TYPE s subj u) \<and>
     (\<forall>s subj u. hasFailed p QUALIFICATION_TYPE s subj u \<longrightarrow> hasFailed p' QUALIFICATION_TYPE s subj u) \<and>
     (\<forall>s. isSessionCompleted p QUALIFICATION_TYPE s \<longrightarrow> isSessionCompleted p' QUALIFICATION_TYPE s) \<and>
     totalSessions (stats p') = totalSessions (stats p)"

definition quiet :: "run_state \<Rightarrow> run_state \<Rightarrow> bool" where
  "quiet st st' \<longleftrightarrow>
     completed (progress st') = completed (progress st) \<and>
     failed (progress st') = failed (progress st) \<and>
     completedUnits (stats (progress st')) = completedUnits (stats (progress st)) \<and>
     failedUnits (stats (progress st')) = failedUnits (stats (progress st)) \<and>
     totalSessions (stats (progress st')) = totalSessions (stats (progress st)) \<and>
     artifacts st' = artifacts st \<and>
     (\<forall>s. isSessionCompleted (progress st) QUALIFICATION_TYPE s \<longrightarrow>
          isSessionCompleted (progress st') QUALIFICATION_TYPE s) \<and>
     (\<exists>tr. trace st' = trace st @ tr \<and> list_all (\<lambda>a. \<not> unit_level a) tr)"

text \<open>
  A state carries another on when every adapter call made so far is still in the trace
  and the counter of completed units has grown by the number of artifact files written.
\<close>

definition carries_on :: "run_state \<Rightarrow> run_state \<Rightarrow> bool" where
  "carries_on st st' \<longleftrightarrow>
     set (trace st) \<subseteq> set (trace st') \<and>
     completedUnits (stats (progress st')) + length (artifacts st) =
       completedUnits (stats (progress st)) + length (artifacts st')"

section \<open>The merge engine (file\_processor.js)\<close>

text \<open>
  The raw tree under \<open>SOURCE_DIR\<close>, as the calls of the file system module see it. A
  directory is the list of its entries in the order \<open>readdir\<close> returns them. An entry of a
  subject folder is a file that \<open>copyFile\<close> copies, or one on which \<open>copyFile\<close> raises (a
  link to nothing, a folder, a file without permission). An entry above that level is a
  directory, or something that is not a directory, or something on which \<open>stat\<close> and
  \<open>readdir\<close> raise. An error carries its \<open>code\<close>; \<open>TypeError\<close> is the error of calling a
  method that a value does not have.
\<close>

datatype error = ENOENT | ENOTDIR | OtherCode jsstring | TypeError

datatype file_entry = Regular | Unreadable error

datatype 'a entry = Dir 'a | NotDir | Fails error

type_synonym subject_dir = "(jsstring \<times> file_entry) list"
type_synonym session_dir = "(jsstring \<times> subject_dir entry) list"
type_synonym qual_dir = "(jsstring \<times> session_dir entry) list"
type_synonym source_dir = "(jsstring \<times> qual_dir entry) list"

text \<open>
  What the engine does to the tree under \<open>TARGET_DIR\<close>, in order. Paths are lists of
  segments below \<open>SOURCE_DIR\<close> and \<open>TARGET_DIR\<close>. The target tree is taken to be writable.
\<close>

datatype fs_op = Mkdir "jsstring list" | CopyFile "jsstring list" "jsstring list"

text \<open>
  The local state of \<open>processMathSubjects\<close> and \<open>processRegularSubjects\<close>: the set
  \<open>processedUnitCodes\<close> (in insertion order), the two counters, and the operations performed.
\<close>

record merge_state =
  processedUnitCodes :: "jsstring list"
  processedFiles :: nat
  duplicatesFound :: nat
  ops :: "fs_op list"

text \<open>
  The loop over the files of one subject variant. It stops with the error when \<open>copyFile\<close>
  raises, after the file has been counted and its code added to the set.
\<close>

fun process_files ::
  "jsstring list \<Rightarrow> jsstring list \<Rightarrow> subject_dir \<Rightarrow> merge_state \<Rightarrow> error option \<times> merge_state" where
  "process_files subjectPath targetPath [] st = (None, st)"
| "process_files subjectPath targetPath ((file, kind) # files) st =
     (if \<not> endsWith file (js ''.json'') then process_files subjectPath targetPath files st
      else case parseUnitCode file of
             None \<Rightarrow> process_files subjectPath targetPath files st
           | Some unitCode \<Rightarrow>
               (let st1 = st\<lparr>processedFiles := processedFiles st + 1\<rparr>
                in if unitCode \<in> set (processedUnitCodes st1)
                   then process_files subjectPath targetPath files
                          (st1\<lparr>duplicatesFound := duplicatesFound st1 + 1\<rparr>)
                   else (let st2 = st1\<lparr>processedUnitCodes := processedUnitCodes st1 @ [unitCode]\<rparr>
                         in case kind of
                              Regular \<Rightarrow>
                                process_files subjectPath targetPath files
                                  (st2\<lparr>ops := ops st2 @
                                         [CopyFile (subjectPath @ [file]) (targetPath @ [file])]\<rparr>)
                            | Unreadable e \<Rightarrow> (Some e, st2))))"

text \<open>\<open>readdir\<close> of a subject variant, found by its name in the session directory.\<close>

definition readdir_subject :: "session_dir \<Rightarrow> jsstring \<Rightarrow> error + subject_dir" where
  "readdir_subject sessionDir subject =
     (case map_of sessionDir subject of
        None \<Rightarrow> Inl ENOENT
      | Some (Dir files) \<Rightarrow> Inr files
      | Some NotDir \<Rightarrow> Inl ENOTDIR
      | Some (Fails e) \<Rightarrow> Inl e)"

text \<open>
  The loop over the subject variants, common to both functions: an error with code
  \<open>ENOENT\<close> or \<open>ENOTDIR\<close> ends the variant and the loop goes on; any other error is raised
  again.
\<close>

fun process_variants ::
  "session_dir \<Rightarrow> jsstring list \<Rightarrow> jsstring list \<Rightarrow> jsstring list \<Rightarrow> merge_state \<Rightarrow>
     error option \<times> merge_state" where
  "process_variants sessionDir sessionPath targetPath [] st = (None, st)"
| "process_variants sessionDir sessionPath targetPath (subject # subjects) st =
     (case (case readdir_subject sessionDir subject of
              Inl e \<Rightarrow> (Some e, st)
            | Inr files \<Rightarrow> process_files (sessionPath @ [subject]) targetPath files st) of
        (None, st') \<Rightarrow> process_variants sessionDir sessionPath targetPath subjects st'
      | (Some e, st') \<Rightarrow>
          (if e = ENOENT \<or> e = ENOTDIR
           then process_variants sessionDir sessionPath targetPath subjects st'
           else (Some e, st')))"

definition processMathSubjects ::
  "session_dir \<Rightarrow> jsstring list \<Rightarrow> jsstring list \<Rightarrow> jsstring list \<Rightarrow> fs_op list \<Rightarrow>
     error option \<times> merge_state" where
  "processMathSubjects sessionDir sessionPath mathSubjects targetSessionPath done =
     (let unifiedMathPath = targetSessionPath @ [js ''Mathematics'']
      in process_variants sessionDir sessionPath unifiedMathPath mathSubjects
           \<lparr>processedUnitCodes = [], processedFiles = 0, duplicatesFound = 0,
            ops = done @ [Mkdir unifiedMathPath]\<rparr>)"

definition processRegularSubjects ::
  "session_dir \<Rightarrow> jsstring list \<Rightarrow> jsstring \<Rightarrow> jsstring list \<Rightarrow> jsstring list \<Rightarrow> fs_op list \<Rightarrow>
     error option \<times> merge_state" where
  "processRegularSubjects sessionDir sessionPath baseSubject subjectVariants targetSessionPath done =
     (let targetSubjectPath = targetSessionPath @ [baseSubject]
      in process_variants sessionDir sessionPath targetSubjectPath subjectVariants
           \<lparr>processedUnitCodes = [], processedFiles = 0, duplicatesFound = 0,
            ops = done @ [Mkdir targetSubjectPath]\<rparr>)"

text \<open>
  \<open>subjectGroups\<close> is a plain object used as a dictionary from base name to the array
  of variants. A base name that is the name of a member inherited from the prototype of
  objects reads as that member, which is truthy and has no \<open>push\<close>: the grouping raises a
  \<open>TypeError\<close>. \<open>Object.entries\<close> lists the keys that are array indices first, in ascending
  numeric order, then the other keys in insertion order.
\<close>

definition object_prototype_names :: "jsstring list" where
  "object_prototype_names =
     [js ''constructor'', js ''__defineGetter__'', js ''__defineSetter__'', js ''hasOwnProperty'',
      js ''__lookupGetter__'', js ''__lookupSetter__'', js ''isPrototypeOf'',
      js ''propertyIsEnumerable'', js ''toString'', js ''valueOf'', js ''__proto__'',
      js ''toLocaleString'']"

fun group_subjects ::
  "jsstring list \<Rightarrow> (jsstring \<times> jsstring list) list \<Rightarrow> error + (jsstring \<times> jsstring list) list" where
  "group_subjects [] subjectGroups = Inr subjectGroups"
| "group_subjects (subject # subjects) subjectGroups =
     (let baseName = getBaseSubjectName subject
      in case map_of subjectGroups baseName of
           Some variants \<Rightarrow>
             group_subjects subjects
               (map (\<lambda>(k, v). if k = baseName then (k, v @ [subject]) else (k, v)) subjectGroups)
         | None \<Rightarrow>
             (if baseName \<in> set object_prototype_names then Inl TypeError
              else group_subjects subjects (subjectGroups @ [(baseName, [subject])])))"

fun decimal_value :: "jsstring \<Rightarrow> nat" where
  "decimal_value k = foldl (\<lambda>n c. 10 * n + unat (c - 0x30)) 0 k"

definition array_index :: "jsstring \<Rightarrow> bool" where
  "array_index k \<longleftrightarrow>
     k \<noteq> [] \<and> list_all (in_cls Digit) k \<and> (k = js ''0'' \<or> hd k \<noteq> 0x30) \<and>
     decimal_value k < 4294967295"

definition entries :: "(jsstring \<times> 'v) list \<Rightarrow> (jsstring \<times> 'v) list" where
  "entries obj =
     sort_key (\<lambda>(k, v). decimal_value k) (filter (\<lambda>(k, v). array_index k) obj) @
     filter (\<lambda>(k, v). \<not> array_index k) obj"

text \<open>The totals that \<open>organizeData\<close> reports, and the operations of the whole pass.\<close>

record totals =
  totalFiles :: nat
  duplicates :: nat
  performed :: "fs_op list"

text \<open>The loop over the groups of a session.\<close>

fun process_groups ::
  "session_dir \<Rightarrow> jsstring list \<Rightarrow> jsstring list \<Rightarrow> (jsstring \<times> jsstring list) list \<Rightarrow> totals \<Rightarrow>
     error option \<times> totals" where
  "process_groups sessionDir sessionPath targetSessionPath [] acc = (None, acc)"
| "process_groups sessionDir sessionPath targetSessionPath ((baseSubject, subjectVariants) # groups) acc =
     (case (if list_ex isMathSubject subjectVariants
            then processMathSubjects sessionDir sessionPath subjectVariants targetSessionPath
                   (performed acc)
            else processRegularSubjects sessionDir sessionPath baseSubject subjectVariants
                   targetSessionPath (performed acc)) of
        (None, result) \<Rightarrow>
          process_groups sessionDir sessionPath targetSessionPath groups
            \<lparr>totalFiles = totalFiles acc + processedFiles result,
             duplicates = duplicates acc + duplicatesFound result,
             performed = ops result\<rparr>
      | (Some e, result) \<Rightarrow> (Some e, acc\<lparr>performed := ops result\<rparr>))"

text \<open>The loop over the sessions of a qualification type.\<close>

fun process_session_dirs ::
  "jsstring \<Rightarrow> qual_dir \<Rightarrow> totals \<Rightarrow> error option \<times> totals" where
  "process_session_dirs qualType [] acc = (None, acc)"
| "process_session_dirs qualType ((session, node) # sessions) acc =
     (case node of
        Fails e \<Rightarrow> (Some e, acc)
      | NotDir \<Rightarrow> process_session_dirs qualType sessions acc
      | Dir sessionDir \<Rightarrow>
          (let acc1 = acc\<lparr>performed := performed acc @ [Mkdir [qualType, session]]\<rparr>
           in case group_subjects (map fst sessionDir) [] of
                Inl e \<Rightarrow> (Some e, acc1)
              | Inr subjectGroups \<Rightarrow>
                  (case process_groups sessionDir [qualType, session] [qualType, session]
                          (entries subjectGroups) acc1 of
                     (None, acc2) \<Rightarrow> process_session_dirs qualType sessions acc2
                   | (Some e, acc2) \<Rightarrow> (Some e, acc2))))"

text \<open>The loop over the qualification types.\<close>

fun process_qual_dirs :: "source_dir \<Rightarrow> totals \<Rightarrow> error option \<times> totals" where
  "process_qual_dirs [] acc = (None, acc)"
| "process_qual_dirs ((qualType, node) # qualTypes) acc =
     (case node of
        Fails e \<Rightarrow> (Some e, acc)
      | NotDir \<Rightarrow> process_qual_dirs qualTypes acc
      | Dir qualDir \<Rightarrow>
          (case process_session_dirs qualType qualDir
                  (acc\<lparr>performed := performed acc @ [Mkdir [qualType]]\<rparr>) of
             (None, acc1) \<Rightarrow> process_qual_dirs qualTypes acc1
           | (Some e, acc1) \<Rightarrow> (Some e, acc1)))"

text \<open>
  \<open>organizeData\<close>: the error it raises, if any, with the totals and the operations so far.
\<close>

definition organizeData :: "source_dir entry \<Rightarrow> error option \<times> totals" where
  "organizeData source =
     (let acc = \<lparr>totalFiles = 0, duplicates = 0, performed = [Mkdir []]\<rparr>
      in case source of
           Fails e \<Rightarrow> (Some e, acc)
         | NotDir \<Rightarrow> (Some ENOTDIR, acc)
         | Dir qualTypes \<Rightarrow> process_qual_dirs qualTypes acc)"

text \<open>
  The files of a folder of the target tree after a sequence of operations on an empty
  target: the names copied into it (a later copy to the same name overwrites the file).
  Path segments are compared as they are.
\<close>

definition folder_files :: "fs_op list \<Rightarrow> jsstring list \<Rightarrow> jsstring list" where
  "folder_files done folder =
     remdups (concat (map (\<lambda>x. case x of
                               CopyFile src tgt \<Rightarrow> (if tgt \<noteq> [] \<and> butlast tgt = folder then [last tgt] else [])
                             | Mkdir p \<Rightarrow> []) done))"

definition folders :: "fs_op list \<Rightarrow> jsstring list list" where
  "folders done = remdups (concat (map (\<lambda>x. case x of Mkdir p \<Rightarrow> [p] | CopyFile src tgt \<Rightarrow> []) done))"

definition copies :: "fs_op list \<Rightarrow> nat" where
  "copies done = length (filter (\<lambda>x. case x of CopyFile src tgt \<Rightarrow> True | Mkdir p \<Rightarrow> False) done)"

text \<open>
  The unit codes of the files copied by a sequence of operations, in order, and the trees
  in which every entry of a subject folder can be copied.
\<close>

definition copied_codes :: "fs_op list \<Rightarrow> jsstring list" where
  "copied_codes done =
     concat (map (\<lambda>x. case x of
                         CopyFile src tgt \<Rightarrow> (case parseUnitCode (last tgt) of Some c \<Rightarrow> [c] | None \<Rightarrow> [])
                       | Mkdir p \<Rightarrow> []) done)"

definition regular_files :: "subject_dir \<Rightarrow> bool" where
  "regular_files files = list_all (\<lambda>(file, kind). kind = Regular) files"

definition regular_session :: "session_dir \<Rightarrow> bool" where
  "regular_session sessionDir =
     list_all (\<lambda>(subject, node). case node of Dir files \<Rightarrow> regular_files files | _ \<Rightarrow> True) sessionDir"

definition regular_qual :: "qual_dir \<Rightarrow> bool" where
  "regular_qual qualDir =
     list_all (\<lambda>(session, node). case node of Dir sessionDir \<Rightarrow> regular_session sessionDir | _ \<Rightarrow> True) qualDir"

definition regular_source :: "source_dir entry \<Rightarrow> bool" where
  "regular_source source =
     (case source of
        Dir qualTypes \<Rightarrow>
          list_all (\<lambda>(qualType, node). case node of Dir qualDir \<Rightarrow> regular_qual qualDir | _ \<Rightarrow> True) qualTypes
      | _ \<Rightarrow> True)"

text \<open>
  The invariants of the loops: the counters and the set of an invocation, the codes of the
  files it has copied after those copied before it (\<open>d\<close>), and the totals of the pass.
\<close>

definition merge_inv :: "jsstring list \<Rightarrow> merge_state \<Rightarrow> bool" where
  "merge_inv d st \<longleftrightarrow>
     duplicatesFound st + length (processedUnitCodes st) = processedFiles st \<and>
     distinct (processedUnitCodes st) \<and>
     (\<exists>xs. copied_codes (ops st) = d @ xs \<and> subseq xs (processedUnitCodes st))"

definition merge_exact :: "jsstring list \<Rightarrow> nat \<Rightarrow> merge_state \<Rightarrow> bool" where
  "merge_exact d n st \<longleftrightarrow>
     copied_codes (ops st) = d @ processedUnitCodes st \<and>
     copies (ops st) = n + length (processedUnitCodes st)"

definition all_parsed :: "fs_op list \<Rightarrow> bool" where
  "all_parsed done \<longleftrightarrow> copies done = length (copied_codes done)"

definition totals_exact :: "totals \<Rightarrow> bool" where
  "totals_exact acc \<longleftrightarrow> duplicates acc + copies (performed acc) = totalFiles acc"

definition totals_bound :: "totals \<Rightarrow> bool" where
  "totals_bound acc \<longleftrightarrow>
     duplicates acc + copies (performed acc) \<le> totalFiles acc \<and> all_parsed (performed acc)"

section \<open>Concrete inputs\<close>

text \<open>
  A lower-casing that is right on ASCII text, score rows, two sites and some raw trees, for
  evaluating the functions.
\<close>

definition ascii_lower :: "jsstring \<Rightarrow> jsstring" where
  "ascii_lower s = map (\<lambda>c. if in_cls Upper c then c + 0x20 else c) s"

definition some_rows :: "row list" where
  "some_rows = [\<lparr>RAW = 10, UMS = 20, GRADE = js ''E''\<rparr>, \<lparr>RAW = 50, UMS = 80, GRADE = js ''A''\<rparr>]"

definition site1 :: site where
  "site1 = \<lparr>sessionLinks = Inr [js ''June 2019''],
            subjectLinks = (\<lambda>s. Inr [js ''Physics'']),
            unitLinks = (\<lambda>s subj. Inr [js ''WPH01'']),
            unitPage = (\<lambda>s subj u. Extracted (RawRows []))\<rparr>"

definition site2 :: site where
  "site2 = \<lparr>sessionLinks = Inr [js ''June 2019'', js ''Help'', js ''January 2020''],
            subjectLinks = (\<lambda>s. Inr [js ''Physics'', js ''History'']),
            unitLinks = (\<lambda>s subj. Inr [js ''WPH01'']),
            unitPage = (\<lambda>s subj u. Extracted (RawRows some_rows))\<rparr>"


definition c2_tree :: "source_dir entry" where
  "c2_tree = Dir [(js ''IAL'', Dir [(js ''June_2019'', Dir
      [(js ''Mathematics_(2018)'', Dir [(js ''WMA01-01_a.json'', Regular)]),
       (js ''Further_Mathematics'', Dir [(js ''WMA01-01_b.json'', Regular)]),
       (js ''Pure_Mathematics_(2015)'', Dir [(js ''WMA01-01_c.json'', Regular)])])])]"

definition c2_tree_same :: "source_dir entry" where
  "c2_tree_same = Dir [(js ''IAL'', Dir [(js ''June_2019'', Dir
      [(js ''Mathematics_(2018)'', Dir [(js ''WMA01-01.json'', Regular)]),
       (js ''Further_Mathematics'', Dir [(js ''WMA01-01.json'', Regular)]),
       (js ''Pure_Mathematics_(2015)'', Dir [(js ''WMA01-01.json'', Regular)])])])]"

definition c4_tree :: "source_dir entry" where
  "c4_tree = Dir [(js ''IAL'', Dir [(js ''June_2019'', Dir
      [(js ''Mathematics'', Dir [(js ''WMA01-01.json'', Regular)]),
       (js ''Further_Mathematics'', Dir [(js ''WMA01-01_F.json'', Regular)])])])]"

definition physics_session :: session_dir where
  "physics_session =
     [(js ''Physics'', Dir [(js ''WPH01-01.json'', Regular), (js ''WPH02-01.json'', Regular)]),
      (js ''Physics_(2018)'', Dir [(js ''WPH01-01.json'', Regular)])]"

definition physics_tree :: "source_dir entry" where
  "physics_tree = Dir [(js ''IAL'', Dir [(js ''June_2019'', Dir physics_session)])]"

definition broken_session :: session_dir where
  "broken_session = [(js ''Physics'', Dir [(js ''WPH01-01.json'', Unreadable ENOENT)])]"

definition june :: "jsstring list" where
  "june = [js ''IAL'', js ''June_2019'']"

definition site1_raising :: site where
  "site1_raising = site1\<lparr>unitPage := (\<lambda>s subj u. ExtractThrows (js ''Execution context was destroyed''))\<rparr>"

definition site3 :: site where
  "site3 = site2\<lparr>sessionLinks := Inr [js ''June 2019'', js ''January 2020'', js ''October 2020'']\<rparr>"

text \<open>A ledger with \<open>c\<close> completed units of \<open>t\<close> counted units.\<close>

definition ledger_with :: "nat \<Rightarrow> nat \<Rightarrow> progress" where
  "ledger_with c t =
     ProgressTracker\<lparr>stats := (stats ProgressTracker)\<lparr>totalUnits := t, completedUnits := c\<rparr>\<rparr>"

text \<open>The state at the end of a first run, and of a run that starts from where a run ended.\<close>

definition first_run :: "site \<Rightarrow> run_state" where
  "first_run site = projr (scrapeSeries ascii_lower site NoFile 0 [])"

definition later_run :: "site \<Rightarrow> run_state \<Rightarrow> run_state" where
  "later_run site st = projr (scrapeSeries ascii_lower site (disk st) (clock st) (artifacts st))"

section \<open>Properties of the matcher\<close>

text \<open>
  The backtracking matcher is sound and complete for the declarative reading of a pattern:
  the remainders it lists are exactly the ways of splitting the input into a string the
  pattern denotes and a rest.
\<close>

lemma takeWhile_all_prefix:
  "\<forall>c\<in>set p. P c \<Longrightarrow> length p \<le> length (takeWhile P (p @ t))"
  by (induction p) auto

lemma take_takeWhile_all:
  "i \<le> length (takeWhile P s) \<Longrightarrow> \<forall>c\<in>set (take i s). P c"
proof (induction s arbitrary: i)
  case Nil
  then show ?case by simp
next
  case (Cons x xs)
  then show ?case by (cases i) (auto split: if_splits)
qed

lemma set_ms_rep:
  "set (ms (Rep a m n) s) = {drop i s | i. m \<le> i \<and> i \<le> rep_max a n s}"
  by (auto simp del: upt_Suc simp add: less_Suc_eq_le)

lemma rep_max_le: "i \<le> rep_max a n s \<Longrightarrow> i \<le> length (takeWhile (in_cls a) s)"
  by (auto simp: rep_max_def Let_def split: option.splits)

lemma rep_max_bound: "i \<le> rep_max a (Some b) s \<Longrightarrow> i \<le> b"
  by (auto simp: rep_max_def Let_def)

lemma rep_max_ge:
  "i \<le> length (takeWhile (in_cls a) s) \<Longrightarrow> (case n of None \<Rightarrow> True | Some b \<Rightarrow> i \<le> b)
    \<Longrightarrow> i \<le> rep_max a n s"
  by (auto simp: rep_max_def Let_def split: option.splits)

lemma ms_rep_iff:
  "t \<in> set (ms (Rep a m n) s) \<longleftrightarrow> (\<exists>p. s = p @ t \<and> p \<in> den (Rep a m n) t)"
proof
  assume "t \<in> set (ms (Rep a m n) s)"
  then obtain i where i: "m \<le> i" "i \<le> rep_max a n s" "t = drop i s"
    unfolding set_ms_rep by blast
  have ik: "i \<le> length (takeWhile (in_cls a) s)"
    using i(2) by (rule rep_max_le)
  have il: "i \<le> length s" using ik length_takeWhile_le[of "in_cls a" s] by linarith
  have 1: "s = take i s @ t" using i(3) by simp
  have 2: "\<forall>c\<in>set (take i s). in_cls a c" using ik by (rule take_takeWhile_all)
  have 3: "length (take i s) = i" using il by simp
  have 4: "case n of None \<Rightarrow> True | Some b \<Rightarrow> i \<le> b"
    using i(2) by (cases n) (auto dest: rep_max_bound)
  have "take i s \<in> den (Rep a m n) t"
    using 2 4 i(1) il by (cases n) (simp_all add: min_absorb2)
  with 1 show "\<exists>p. s = p @ t \<and> p \<in> den (Rep a m n) t" by blast
next
  assume "\<exists>p. s = p @ t \<and> p \<in> den (Rep a m n) t"
  then obtain p where p: "s = p @ t" "\<forall>c\<in>set p. in_cls a c" "m \<le> length p"
     "case n of None \<Rightarrow> True | Some b \<Rightarrow> length p \<le> b" by auto
  have "length p \<le> length (takeWhile (in_cls a) s)"
    unfolding p(1) using p(2) by (rule takeWhile_all_prefix)
  then have "length p \<le> rep_max a n s"
    using p(4) by (rule rep_max_ge)
  moreover have "t = drop (length p) s" using p(1) by simp
  ultimately show "t \<in> set (ms (Rep a m n) s)" using p(3)
    unfolding set_ms_rep by blast
qed

lemma ms_den: "t \<in> set (ms r s) \<longleftrightarrow> (\<exists>p. s = p @ t \<and> p \<in> den r t)"
proof (induction r arbitrary: s t)
  case (Lit w)
  show ?case by (auto simp: prefix_def)
next
  case (Rep a m n)
  show ?case by (rule ms_rep_iff)
next
  case (Seq r1 r2)
  have "t \<in> set (ms (Seq r1 r2) s) \<longleftrightarrow> (\<exists>u\<in>set (ms r1 s). t \<in> set (ms r2 u))" by simp
  also have "\<dots> \<longleftrightarrow> (\<exists>u. (\<exists>p1. s = p1 @ u \<and> p1 \<in> den r1 u) \<and> (\<exists>p2. u = p2 @ t \<and> p2 \<in> den r2 t))"
    unfolding Seq.IH Bex_def ..
  also have "\<dots> \<longleftrightarrow> (\<exists>p. s = p @ t \<and> p \<in> den (Seq r1 r2) t)"
  proof
    assume "\<exists>u. (\<exists>p1. s = p1 @ u \<and> p1 \<in> den r1 u) \<and> (\<exists>p2. u = p2 @ t \<and> p2 \<in> den r2 t)"
    then obtain u p1 p2 where "s = p1 @ u" "p1 \<in> den r1 u" "u = p2 @ t" "p2 \<in> den r2 t"
      by blast
    then have "s = (p1 @ p2) @ t \<and> p1 @ p2 \<in> den (Seq r1 r2) t" by auto
    then show "\<exists>p. s = p @ t \<and> p \<in> den (Seq r1 r2) t" by blast
  next
    assume "\<exists>p. s = p @ t \<and> p \<in> den (Seq r1 r2) t"
    then obtain p1 p2 where "s = (p1 @ p2) @ t" "p2 \<in> den r2 t" "p1 \<in> den r1 (p2 @ t)"
      by auto
    then have "(\<exists>q. s = q @ (p2 @ t) \<and> q \<in> den r1 (p2 @ t)) \<and> (\<exists>q. p2 @ t = q @ t \<and> q \<in> den r2 t)"
      by auto
    then show "\<exists>u. (\<exists>p1. s = p1 @ u \<and> p1 \<in> den r1 u) \<and> (\<exists>p2. u = p2 @ t \<and> p2 \<in> den r2 t)"
      by blast
  qed
  finally show ?case .
next
  case (Alt r1 r2)
  have "t \<in> set (ms (Alt r1 r2) s) \<longleftrightarrow> t \<in> set (ms r1 s) \<or> t \<in> set (ms r2 s)" by simp
  then show ?case unfolding Alt.IH by auto
next
  case (Opt r)
  have "t \<in> set (ms (Opt r) s) \<longleftrightarrow> t = s \<or> (t \<in> set (ms r s) \<and> length t < length s)"
    by auto
  also have "\<dots> \<longleftrightarrow> t = s \<or> ((\<exists>p. s = p @ t \<and> p \<in> den r t) \<and> length t < length s)"
    unfolding Opt.IH ..
  also have "\<dots> \<longleftrightarrow> (\<exists>p. s = p @ t \<and> p \<in> den (Opt r) t)"
    by auto
  finally show ?case .
next
  case Eos
  show ?case by auto
qed

text \<open>
  What the unit code pattern denotes is the unit code of the specification.
\<close>

lemma den_upper23: "l \<in> den (Rep Upper 2 (Some 3)) t \<longleftrightarrow>
    (length l = 2 \<or> length l = 3) \<and> (\<forall>x\<in>set l. in_cls Upper x)"
  by auto

lemma den_digit2: "d \<in> den (Rep Digit 2 (Some 2)) t \<longleftrightarrow>
    length d = 2 \<and> (\<forall>x\<in>set d. in_cls Digit x)"
  by auto

lemma den_upper01: "c \<in> den (Rep Upper 0 (Some 1)) t \<longleftrightarrow>
    (c = [] \<or> (\<exists>x. c = [x] \<and> in_cls Upper x))"
  by (cases c) auto

lemma den_hyphen: "h \<in> den (Opt (Seq (Lit (js ''-'')) (Rep Digit 2 (Some 2)))) t \<longleftrightarrow>
    (h = [] \<or> (\<exists>e. h = 0x2D # e \<and> length e = 2 \<and> (\<forall>x\<in>set e. in_cls Digit x)))"
  by (auto simp: js_def)

lemma den_seq: "p \<in> den (Seq r1 r2) t \<longleftrightarrow> (\<exists>p1 p2. p = p1 @ p2 \<and> p2 \<in> den r2 t \<and> p1 \<in> den r1 (p2 @ t))"
  by auto

lemma den_unit_code: "p \<in> den unit_code_rx t \<longleftrightarrow> spec_unit_code p"
  unfolding unit_code_rx_def spec_unit_code_def den_seq den_upper23 den_digit2 den_upper01 den_hyphen
  by blast

text \<open>
  The year pattern matches at a position exactly when white space and then a year token
  start there, and a match is at least six units long. So the global replacement leaves a
  string without year token as it is and shortens any other string.
\<close>

lemma den_space_star: "w \<in> den (Rep Space 0 None) t \<longleftrightarrow> (\<forall>x\<in>set w. in_cls Space x)"
  by auto

lemma den_digit4: "d \<in> den (Rep Digit 4 (Some 4)) t \<longleftrightarrow>
    length d = 4 \<and> (\<forall>x\<in>set d. in_cls Digit x)"
  by auto

lemma den_lit: "p \<in> den (Lit w) t \<longleftrightarrow> p = w"
  by simp

lemma den_year:
  "p \<in> den year_rx t \<longleftrightarrow>
     (\<exists>w d w'. p = w @ 0x28 # d @ 0x29 # w' \<and> (\<forall>x\<in>set w. in_cls Space x) \<and>
        length d = 4 \<and> (\<forall>x\<in>set d. in_cls Digit x) \<and> (\<forall>x\<in>set w'. in_cls Space x))"
  unfolding year_rx_def den_seq den_space_star den_digit4 den_lit
  by (simp add: js_def) blast

lemma len4: "length d = 4 \<Longrightarrow> \<exists>a b c e. d = [a, b, c, e]"
  by (auto simp: numeral_eq_Suc length_Suc_conv)

lemma has_year_token_append: "has_year_token b \<Longrightarrow> has_year_token (a @ b)"
  by (induction a) auto

lemma year_token_at_den:
  assumes "length d = 4" "\<forall>x\<in>set d. in_cls Digit x"
  shows "year_token_at (0x28 # d @ 0x29 # rest)"
proof -
  from len4[OF assms(1)] obtain a b c e where "d = [a, b, c, e]" by blast
  with assms(2) show ?thesis by simp
qed

lemma ms_year_token: "ms year_rx s \<noteq> [] \<Longrightarrow> has_year_token s"
proof -
  assume "ms year_rx s \<noteq> []"
  then obtain t where "t \<in> set (ms year_rx s)" by (cases "ms year_rx s") auto
  then obtain p where p: "s = p @ t" "p \<in> den year_rx t" unfolding ms_den by blast
  from p(2) obtain w d w' where w: "p = w @ 0x28 # d @ 0x29 # w'"
     "length d = 4" "\<forall>x\<in>set d. in_cls Digit x" unfolding den_year by blast
  have "year_token_at (0x28 # d @ 0x29 # (w' @ t))" using w(2,3) by (rule year_token_at_den)
  then have "has_year_token (0x28 # d @ 0x29 # (w' @ t))" by simp
  then have "has_year_token (w @ (0x28 # d @ 0x29 # (w' @ t)))" by (rule has_year_token_append)
  then show ?thesis unfolding p(1) w(1) by simp
qed

lemma ms_year_length: "t \<in> set (ms year_rx s) \<Longrightarrow> length t + 6 \<le> length s"
proof -
  assume "t \<in> set (ms year_rx s)"
  then obtain p where p: "s = p @ t" "p \<in> den year_rx t" unfolding ms_den by blast
  from p(2) obtain w d w' where w: "p = w @ 0x28 # d @ 0x29 # w'"
     "length d = 4" unfolding den_year by blast
  show ?thesis unfolding p(1) w(1) using w(2) by simp
qed

lemma year_token_at_ms: "year_token_at s \<Longrightarrow> ms year_rx s \<noteq> []"
proof -
  assume a: "year_token_at s"
  then obtain a b c d e f rest where s: "s = a # b # c # d # e # f # rest"
    by (cases s rule: year_token_at.cases) auto
  have "[] @ 0x28 # [b, c, d, e] @ 0x29 # [] \<in> den year_rx rest"
    unfolding den_year using a s by (intro exI conjI) (rule refl, auto)
  moreover have "s = ([] @ 0x28 # [b, c, d, e] @ 0x29 # []) @ rest" using a s by simp
  ultimately have "rest \<in> set (ms year_rx s)" unfolding ms_den by blast
  then show ?thesis by auto
qed

lemma first_match_None: "first_match r s = None \<longleftrightarrow> ms r s = []"
  by (simp add: first_match_def split: list.splits)

lemma first_match_Some: "first_match r s = Some t \<Longrightarrow> t \<in> set (ms r s)"
  by (auto simp: first_match_def split: list.splits)

lemma replace_all_year_length: "length (replace_all year_rx [] s) \<le> length s"
proof (induction s rule: length_induct)
  case (1 s)
  show ?case
  proof (cases "first_match year_rx s")
    case None
    then show ?thesis using 1 by (cases s) (auto simp: replace_all.simps[of _ _ "_ # _"] replace_all.simps[of _ _ "[]"])
  next
    case (Some t)
    then have "length t + 6 \<le> length s" by (intro ms_year_length first_match_Some)
    then have lt: "length t < length s" by simp
    then have "length (replace_all year_rx [] t) \<le> length t" using 1 by blast
    moreover have "replace_all year_rx [] s = replace_all year_rx [] t"
      using Some lt by (subst replace_all.simps) simp
    ultimately show ?thesis using lt by simp
  qed
qed

lemma replace_all_year_id: "\<not> has_year_token s \<Longrightarrow> replace_all year_rx [] s = s"
proof (induction s)
  case Nil
  then have "first_match year_rx [] = None"
    using ms_year_token[of "[]"] by (auto simp: first_match_None)
  then show ?case by (subst replace_all.simps) simp
next
  case (Cons c cs)
  then have "first_match year_rx (c # cs) = None"
    using ms_year_token[of "c # cs"] by (auto simp: first_match_None)
  moreover have "replace_all year_rx [] cs = cs" using Cons by simp
  ultimately show ?case by (subst replace_all.simps) simp
qed

lemma replace_all_year_shrinks:
  "has_year_token s \<Longrightarrow> length (replace_all year_rx [] s) < length s"
proof (induction s)
  case Nil
  then show ?case by simp
next
  case (Cons c cs)
  show ?case
  proof (cases "first_match year_rx (c # cs)")
    case None
    then have "\<not> year_token_at (c # cs)" using year_token_at_ms first_match_None by blast
    then have "has_year_token cs" using Cons.prems by simp
    then have "length (replace_all year_rx [] cs) < length cs" by (rule Cons.IH)
    moreover have "replace_all year_rx [] (c # cs) = c # replace_all year_rx [] cs"
      using None by (subst replace_all.simps) simp
    ultimately show ?thesis by simp
  next
    case (Some t)
    then have "length t + 6 \<le> length (c # cs)" by (intro ms_year_length first_match_Some)
    then have lt: "length t < length (c # cs)" by simp
    have "replace_all year_rx [] (c # cs) = replace_all year_rx [] t"
      using Some lt by (subst replace_all.simps) simp
    moreover have "length (replace_all year_rx [] t) \<le> length t" by (rule replace_all_year_length)
    ultimately show ?thesis using lt by simp
  qed
qed

text \<open>
  The pattern \<open>_+$\<close> matches at a position exactly when only underscores follow, at least
  one; replacing its leftmost match by the empty string removes the trailing underscores.
\<close>

lemma den_trailing_underscores:
  "p \<in> den trailing_underscores_rx t \<longleftrightarrow> t = [] \<and> p \<noteq> [] \<and> (\<forall>x\<in>set p. x = 0x5F)"
  unfolding trailing_underscores_rx_def den_seq
  by (cases p) (auto split: if_splits)

lemma ms_trailing_underscores:
  "t \<in> set (ms trailing_underscores_rx s) \<longleftrightarrow> t = [] \<and> s \<noteq> [] \<and> (\<forall>x\<in>set s. x = 0x5F)"
  unfolding ms_den den_trailing_underscores by auto

lemma first_match_trailing_underscores:
  "first_match trailing_underscores_rx s =
     (if s \<noteq> [] \<and> (\<forall>x\<in>set s. x = 0x5F) then Some [] else None)"
proof (cases "ms trailing_underscores_rx s")
  case Nil
  then have "\<not> (s \<noteq> [] \<and> (\<forall>x\<in>set s. x = 0x5F))"
    using ms_trailing_underscores[of "[]" s] by auto
  then show ?thesis using Nil by (simp add: first_match_def)
next
  case (Cons t ts)
  then have "t \<in> set (ms trailing_underscores_rx s)" by simp
  then have "t = [] \<and> s \<noteq> [] \<and> (\<forall>x\<in>set s. x = 0x5F)" unfolding ms_trailing_underscores .
  then show ?thesis using Cons by (simp add: first_match_def)
qed

lemma strip_eq:
  "replace_first trailing_underscores_rx [] s = rev (dropWhile (\<lambda>x. x = 0x5F) (rev s))"
proof (induction s)
  case Nil
  show ?case by (simp add: first_match_trailing_underscores)
next
  case (Cons c cs)
  show ?case
  proof (cases "\<forall>x\<in>set (c # cs). x = 0x5F")
    case True
    then have "dropWhile (\<lambda>x. x = 0x5F) (rev (c # cs)) = []" by (simp add: dropWhile_eq_Nil_conv)
    then show ?thesis using True by (simp add: first_match_trailing_underscores)
  next
    case False
    then show ?thesis using Cons
      by (auto simp: first_match_trailing_underscores dropWhile_append)
  qed
qed

lemma strip_length: "length (replace_first trailing_underscores_rx [] s) \<le> length s"
  unfolding strip_eq by (simp add: length_dropWhile_le le_trans[OF length_dropWhile_le])

lemma strip_no_trailing:
  "replace_first trailing_underscores_rx [] s = [] \<or>
   last (replace_first trailing_underscores_rx [] s) \<noteq> 0x5F"
proof (cases "dropWhile (\<lambda>x. x = 0x5F) (rev s) = []")
  case True
  then show ?thesis unfolding strip_eq by simp
next
  case False
  then have "hd (dropWhile (\<lambda>x. x = 0x5F) (rev s)) \<noteq> 0x5F" by (rule hd_dropWhile)
  then show ?thesis unfolding strip_eq using False by (simp add: last_rev)
qed

lemma strip_id:
  "s = [] \<or> last s \<noteq> 0x5F \<Longrightarrow> replace_first trailing_underscores_rx [] s = s"
  unfolding strip_eq by (cases s rule: rev_cases) auto

text \<open>The result of \<open>parseUnitCode\<close> in terms of the specification's unit codes.\<close>

lemma parseUnitCode_None:
  "parseUnitCode s = None \<longleftrightarrow> \<not> (\<exists>p. prefix p s \<and> spec_unit_code p)"
proof -
  have "parseUnitCode s = None \<longleftrightarrow> ms unit_code_rx s = []"
    by (simp add: parseUnitCode_def first_match_def split: list.splits)
  also have "\<dots> \<longleftrightarrow> \<not> (\<exists>t. t \<in> set (ms unit_code_rx s))"
    by (cases "ms unit_code_rx s") auto
  also have "\<dots> \<longleftrightarrow> \<not> (\<exists>p. prefix p s \<and> spec_unit_code p)"
    unfolding ms_den den_unit_code prefix_def by blast
  finally show ?thesis .
qed

lemma parseUnitCode_Some:
  assumes "parseUnitCode s = Some p"
  shows "prefix p s \<and> spec_unit_code p"
proof -
  from assms obtain t where t: "first_match unit_code_rx s = Some t"
     "p = take (length s - length t) s"
    by (auto simp: parseUnitCode_def split: option.splits)
  from t(1) have "t \<in> set (ms unit_code_rx s)" by (rule first_match_Some)
  then obtain q where q: "s = q @ t" "spec_unit_code q" unfolding ms_den den_unit_code by blast
  have "p = q" unfolding t(2) q(1) by simp
  then show ?thesis using q by simp
qed

text \<open>
  The matcher lists the remainders for the unit code pattern from the shortest to the
  longest: the first match is the longest one. A quantifier over a class, followed by a
  pattern that rejects the units of the class, can only stop at the end of the run.
\<close>

lemma sorted_rep_lengths: "sorted (map length (ms (Rep a m n) s))"
proof -
  have "sorted (map (\<lambda>i. length s - i) (rev [m..<k]))" for k
    by (induction k) (auto simp: sorted_append)
  then show ?thesis by (simp add: comp_def del: upt_Suc)
qed

lemma ms_rep_shorter: "t \<in> set (ms (Rep a m n) s) \<Longrightarrow> length t \<le> length s"
  unfolding set_ms_rep by auto

lemma drop_starts:
  assumes "i < length (takeWhile P s)"
  shows "\<exists>c u. drop i s = c # u \<and> P c"
proof -
  have il: "i < length s" using assms length_takeWhile_le[of P s] by linarith
  have "P (s ! i)" using assms by (metis nth_mem set_takeWhileD takeWhile_nth)
  moreover have "drop i s = s ! i # drop (Suc i) s" using il by (simp add: Cons_nth_drop_Suc)
  ultimately show ?thesis by blast
qed

lemma seq_rep_reject:
  assumes rej: "\<And>c u. in_cls a c \<Longrightarrow> ms r2 (c # u) = []"
  shows "ms (Seq (Rep a m n) r2) s =
           (if m \<le> rep_max a n s then ms r2 (drop (rep_max a n s) s) else [])"
proof -
  have below: "ms r2 (drop i s) = []" if "i < rep_max a n s" for i
  proof -
    have "i < length (takeWhile (in_cls a) s)"
      using that rep_max_le[of "rep_max a n s" a n s] by simp
    from drop_starts[OF this] obtain c u where "drop i s = c # u" "in_cls a c" by blast
    then show ?thesis using rej by simp
  qed
  have "concat (map (\<lambda>i. ms r2 (drop i s)) (rev [m..<k])) = []" if "k \<le> rep_max a n s" for k
    using that by (induction k) (auto simp: below)
  from this[of "rep_max a n s"]
  have rest: "concat (map (\<lambda>i. ms r2 (drop i s)) (rev [m..<rep_max a n s])) = []" by simp
  show ?thesis using rest by (simp add: comp_def)
qed

lemma upper_not_digit: "in_cls Upper c \<Longrightarrow> \<not> in_cls Digit c"
  by (simp add: word_le_nat_alt)

lemma ms_exact:
  "ms (Rep a m (Some m)) s = (if rep_max a (Some m) s = m then [drop m s] else [])"
proof -
  have "rep_max a (Some m) s \<le> m" by (simp add: rep_max_def Let_def)
  then show ?thesis by (auto simp del: upt_Suc simp add: upt_rec[of m])
qed

lemma rep_max_reject: "\<not> in_cls a c \<Longrightarrow> rep_max a n (c # u) = 0"
  by (simp add: rep_max_def Let_def split: option.splits)

lemma ms_hyphen_cases:
  "ms (Seq (Lit (js ''-'')) (Rep Digit 2 (Some 2))) v = [] \<or>
   (\<exists>u. v = 0x2D # u \<and> ms (Seq (Lit (js ''-'')) (Rep Digit 2 (Some 2))) v = [drop 2 u])"
proof (cases "prefix (js ''-'') v")
  case True
  then obtain u where u: "v = 0x2D # u" by (cases v) (auto simp: js_def)
  then have "ms (Seq (Lit (js ''-'')) (Rep Digit 2 (Some 2))) v = ms (Rep Digit 2 (Some 2)) u"
    by (simp add: js_def del: ms.simps(2))
  then show ?thesis using u unfolding ms_exact by auto
next
  case False
  then show ?thesis by simp
qed

lemma sorted_code_tail: "sorted (map length (ms code_tail v))"
proof -
  let ?H = "Seq (Lit (js ''-'')) (Rep Digit 2 (Some 2))"
  let ?U = "Rep Upper 0 (Some 1)"
  have tail: "ms code_tail v = concat (map (ms ?U) (filter (\<lambda>t. length t < length v) (ms ?H v))) @ ms ?U v"
    unfolding code_tail_def by (simp del: ms.simps(1,2))
  from ms_hyphen_cases[of v] show ?thesis
  proof
    assume "ms ?H v = []"
    then show ?thesis unfolding tail using sorted_rep_lengths[of Upper 0 "Some 1" v]
      by (simp del: ms.simps(2,3))
  next
    assume "\<exists>u. v = 0x2D # u \<and> ms ?H v = [drop 2 u]"
    then obtain u where u: "v = 0x2D # u" "ms ?H v = [drop 2 u]" by blast
    have last: "ms ?U v = [v]" unfolding u(1)
      by (simp add: rep_max_reject)
    have "length (drop 2 u) < length v" using u(1) by simp
    then have "ms code_tail v = ms ?U (drop 2 u) @ [v]"
      unfolding tail last u(2) by (simp del: ms.simps(2,3))
    moreover have "\<forall>t\<in>set (ms ?U (drop 2 u)). length t \<le> length v"
      using ms_rep_shorter[of _ Upper 0 "Some 1" "drop 2 u"] u(1) by fastforce
    ultimately show ?thesis using sorted_rep_lengths[of Upper 0 "Some 1" "drop 2 u"]
      by (simp add: sorted_append del: ms.simps(2,3))
  qed
qed

lemma ms_unit_code_cases:
  "ms unit_code_rx s = [] \<or> (\<exists>v. ms unit_code_rx s = ms code_tail v)"
proof -
  let ?mid = "Seq (Rep Digit 2 (Some 2)) code_tail"
  have mid: "ms ?mid u = [] \<or> ms ?mid u = ms code_tail (drop 2 u)" for u
    by (simp add: ms_exact del: ms.simps(2))
  have rej: "ms ?mid (c # u) = []" if "in_cls Upper c" for c u
    using that by (simp add: ms_exact rep_max_reject upper_not_digit del: ms.simps(2) in_cls.simps)
  have "unit_code_rx = Seq (Rep Upper 2 (Some 3)) ?mid"
    by (simp add: unit_code_rx_def code_tail_def)
  then have "ms unit_code_rx s = [] \<or> ms unit_code_rx s = ms ?mid (drop (rep_max Upper (Some 3) s) s)"
    using seq_rep_reject[of Upper ?mid 2 "Some 3" s, OF rej] by (simp del: ms.simps)
  then show ?thesis using mid by metis
qed

lemma sorted_unit_code: "sorted (map length (ms unit_code_rx s))"
  using ms_unit_code_cases[of s] sorted_code_tail by auto

lemma parseUnitCode_longest:
  assumes "parseUnitCode s = Some p" "prefix q s" "spec_unit_code q"
  shows "length q \<le> length p"
proof -
  from assms(1) obtain t where t: "first_match unit_code_rx s = Some t"
     "p = take (length s - length t) s"
    by (auto simp: parseUnitCode_def split: option.splits)
  from t(1) obtain ts where ts: "ms unit_code_rx s = t # ts"
    by (auto simp: first_match_def split: list.splits)
  from assms(2) obtain t' where t': "s = q @ t'" by (auto simp: prefix_def)
  then have "t' \<in> set (ms unit_code_rx s)" unfolding ms_den den_unit_code using assms(3) by blast
  then have "length t \<le> length t'" using sorted_unit_code[of s] unfolding ts by auto
  then show ?thesis unfolding t(2) using t' by simp
qed

section \<open>Invariants of the merge engine\<close>

text \<open>
  Each loop of the engine keeps the accounting of its counters: by induction on the list it
  runs over, with the state generalised.
\<close>


lemma copied_codes_append: "copied_codes (a @ b) = copied_codes a @ copied_codes b"
  by (simp add: copied_codes_def)

lemma copies_append: "copies (a @ b) = copies a + copies b"
  by (simp add: copies_def)

lemma copied_codes_copy:
  "parseUnitCode f = Some c \<Longrightarrow> copied_codes [CopyFile src (tp @ [f])] = [c]"
  by (simp add: copied_codes_def)

lemma copied_codes_mkdir: "copied_codes [Mkdir p] = []"
  by (simp add: copied_codes_def)

lemma process_files_inv:
  "process_files sp tp files st = (e, st') \<Longrightarrow> merge_inv d st \<Longrightarrow> merge_inv d st'"
proof (induction files arbitrary: st)
  case Nil
  then show ?case by simp
next
  case (Cons a files)
  obtain f kind where a: "a = (f, kind)" by (cases a)
  show ?case
  proof (cases "endsWith f (js ''.json'')")
    case False
    then show ?thesis using Cons a by simp
  next
    case json: True
    show ?thesis
    proof (cases "parseUnitCode f")
      case None
      then show ?thesis using Cons a json by simp
    next
      case (Some c)
      show ?thesis
      proof (cases "c \<in> set (processedUnitCodes st)")
        case True
        let ?st = "st\<lparr>processedFiles := processedFiles st + 1,
                      duplicatesFound := duplicatesFound st + 1\<rparr>"
        have "process_files sp tp files ?st = (e, st')"
          using Cons.prems(1) a json Some True by (simp add: Let_def)
        moreover have "merge_inv d ?st" using Cons.prems(2) by (simp add: merge_inv_def)
        ultimately show ?thesis by (rule Cons.IH)
      next
        case False
        from Cons.prems(2) obtain xs where xs: "copied_codes (ops st) = d @ xs"
           "subseq xs (processedUnitCodes st)" and cnt:
           "duplicatesFound st + length (processedUnitCodes st) = processedFiles st"
           "distinct (processedUnitCodes st)"
          by (auto simp: merge_inv_def)
        show ?thesis
        proof (cases kind)
          case Regular
          let ?st = "st\<lparr>processedFiles := processedFiles st + 1,
                        processedUnitCodes := processedUnitCodes st @ [c],
                        ops := ops st @ [CopyFile (sp @ [f]) (tp @ [f])]\<rparr>"
          have "process_files sp tp files ?st = (e, st')"
            using Cons.prems(1) a json Some False Regular by (simp add: Let_def)
          moreover have "copied_codes (ops ?st) = d @ (xs @ [c])"
            using xs(1) Some by (simp add: copied_codes_append copied_codes_copy)
          moreover have "subseq (xs @ [c]) (processedUnitCodes ?st)"
            using xs(2) by (simp add: list_emb_append_mono)
          ultimately show ?thesis using cnt False
            by (intro Cons.IH[of ?st]) (auto simp: merge_inv_def)
        next
          case (Unreadable err)
          have "st' = st\<lparr>processedFiles := processedFiles st + 1,
                          processedUnitCodes := processedUnitCodes st @ [c]\<rparr>"
            using Cons.prems(1) a json Some False Unreadable by (simp add: Let_def)
          moreover have "subseq xs (processedUnitCodes st @ [c])"
            using xs(2) by (rule list_emb_prefix)
          ultimately show ?thesis using cnt False xs(1) by (auto simp: merge_inv_def)
        qed
      qed
    qed
  qed
qed

lemma process_files_exact:
  "process_files sp tp files st = (e, st') \<Longrightarrow> regular_files files \<Longrightarrow>
     merge_exact d n st \<Longrightarrow> merge_exact d n st' \<and> e = None"
proof (induction files arbitrary: st)
  case Nil
  then show ?case by simp
next
  case (Cons a files)
  obtain f kind where a: "a = (f, kind)" by (cases a)
  have reg: "kind = Regular" "regular_files files"
    using Cons.prems(2) a by (simp_all add: regular_files_def)
  show ?case
  proof (cases "endsWith f (js ''.json'')")
    case False
    then show ?thesis using Cons a reg by simp
  next
    case json: True
    show ?thesis
    proof (cases "parseUnitCode f")
      case None
      then show ?thesis using Cons a json reg by simp
    next
      case (Some c)
      show ?thesis
      proof (cases "c \<in> set (processedUnitCodes st)")
        case True
        let ?st = "st\<lparr>processedFiles := processedFiles st + 1,
                      duplicatesFound := duplicatesFound st + 1\<rparr>"
        have "process_files sp tp files ?st = (e, st')"
          using Cons.prems(1) a json Some True by (simp add: Let_def)
        moreover have "merge_exact d n ?st" using Cons.prems(3) by (simp add: merge_exact_def)
        ultimately show ?thesis using reg(2) by (intro Cons.IH[of ?st])
      next
        case False
        let ?st = "st\<lparr>processedFiles := processedFiles st + 1,
                      processedUnitCodes := processedUnitCodes st @ [c],
                      ops := ops st @ [CopyFile (sp @ [f]) (tp @ [f])]\<rparr>"
        have "process_files sp tp files ?st = (e, st')"
          using Cons.prems(1) a json Some False reg(1) by (simp add: Let_def)
        moreover have "merge_exact d n ?st"
          using Cons.prems(3) Some
          by (simp add: merge_exact_def copied_codes_append copied_codes_copy copies_append)
             (simp add: copies_def)
        ultimately show ?thesis using reg(2) by (intro Cons.IH[of ?st])
      qed
    qed
  qed
qed

lemma readdir_subject_regular:
  "readdir_subject sessionDir subject = Inr files \<Longrightarrow> regular_session sessionDir \<Longrightarrow>
     regular_files files"
proof -
  assume r: "readdir_subject sessionDir subject = Inr files" and reg: "regular_session sessionDir"
  from r have "map_of sessionDir subject = Some (Dir files)"
    by (auto simp: readdir_subject_def split: option.splits entry.splits)
  then have "(subject, Dir files) \<in> set sessionDir" by (rule map_of_SomeD)
  with reg show ?thesis by (auto simp: regular_session_def list_all_iff)
qed

lemma process_variants_inv:
  "process_variants sessionDir sp tp subjects st = (e, st') \<Longrightarrow> merge_inv d st \<Longrightarrow> merge_inv d st'"
proof (induction subjects arbitrary: st)
  case Nil
  then show ?case by simp
next
  case (Cons subject subjects)
  obtain e1 st1 where step:
    "(case readdir_subject sessionDir subject of
        Inl e \<Rightarrow> (Some e, st)
      | Inr files \<Rightarrow> process_files (sp @ [subject]) tp files st) = (e1, st1)"
    by (cases "(case readdir_subject sessionDir subject of
        Inl e \<Rightarrow> (Some e, st)
      | Inr files \<Rightarrow> process_files (sp @ [subject]) tp files st)")
  have inv1: "merge_inv d st1"
    using step Cons.prems(2) by (auto split: sum.splits dest: process_files_inv)
  show ?case
  proof (cases "e1 = None \<or> e1 = Some ENOENT \<or> e1 = Some ENOTDIR")
    case True
    then have "process_variants sessionDir sp tp subjects st1 = (e, st')"
      using Cons.prems(1) step by (auto split: if_splits)
    then show ?thesis using inv1 by (rule Cons.IH)
  next
    case False
    then have "st' = st1" using Cons.prems(1) step by (cases e1) (auto split: if_splits)
    then show ?thesis using inv1 by simp
  qed
qed

lemma process_variants_exact:
  "process_variants sessionDir sp tp subjects st = (None, st') \<Longrightarrow> regular_session sessionDir \<Longrightarrow>
     merge_exact d n st \<Longrightarrow> merge_exact d n st'"
proof (induction subjects arbitrary: st)
  case Nil
  then show ?case by simp
next
  case (Cons subject subjects)
  obtain e1 st1 where step:
    "(case readdir_subject sessionDir subject of
        Inl e \<Rightarrow> (Some e, st)
      | Inr files \<Rightarrow> process_files (sp @ [subject]) tp files st) = (e1, st1)"
    by (cases "(case readdir_subject sessionDir subject of
        Inl e \<Rightarrow> (Some e, st)
      | Inr files \<Rightarrow> process_files (sp @ [subject]) tp files st)")
  have ex1: "merge_exact d n st1"
    using step Cons.prems(2,3)
    by (auto split: sum.splits dest: process_files_exact readdir_subject_regular)
  show ?case
  proof (cases "e1 = None \<or> e1 = Some ENOENT \<or> e1 = Some ENOTDIR")
    case True
    then have "process_variants sessionDir sp tp subjects st1 = (None, st')"
      using Cons.prems(1) step by (auto split: if_splits)
    then show ?thesis using Cons.prems(2) ex1 by (rule Cons.IH)
  next
    case False
    then have False using Cons.prems(1) step by (cases e1) (auto split: if_splits)
    then show ?thesis ..
  qed
qed

lemma all_parsed_mkdir: "all_parsed done \<Longrightarrow> all_parsed (done @ [Mkdir p])"
  by (simp add: all_parsed_def copies_append copied_codes_append copied_codes_mkdir)
     (simp add: copies_def)

lemma all_parsed_copy:
  "all_parsed done \<Longrightarrow> parseUnitCode f = Some c \<Longrightarrow> all_parsed (done @ [CopyFile src (tp @ [f])])"
  by (simp add: all_parsed_def copies_append copied_codes_append copied_codes_copy)
     (simp add: copies_def)

lemma process_files_parsed:
  "process_files sp tp files st = (e, st') \<Longrightarrow> all_parsed (ops st) \<Longrightarrow> all_parsed (ops st')"
proof (induction files arbitrary: st)
  case Nil
  then show ?case by simp
next
  case (Cons a files)
  obtain f kind where a: "a = (f, kind)" by (cases a)
  show ?case
  proof (cases "endsWith f (js ''.json'')")
    case False
    then show ?thesis using Cons a by simp
  next
    case json: True
    show ?thesis
    proof (cases "parseUnitCode f")
      case None
      then show ?thesis using Cons a json by simp
    next
      case (Some c)
      show ?thesis
      proof (cases "c \<in> set (processedUnitCodes st)")
        case True
        let ?st = "st\<lparr>processedFiles := processedFiles st + 1,
                      duplicatesFound := duplicatesFound st + 1\<rparr>"
        have "process_files sp tp files ?st = (e, st')"
          using Cons.prems(1) a json Some True by (simp add: Let_def)
        moreover have "all_parsed (ops ?st)" using Cons.prems(2) by simp
        ultimately show ?thesis by (rule Cons.IH)
      next
        case False
        show ?thesis
        proof (cases kind)
          case Regular
          let ?st = "st\<lparr>processedFiles := processedFiles st + 1,
                        processedUnitCodes := processedUnitCodes st @ [c],
                        ops := ops st @ [CopyFile (sp @ [f]) (tp @ [f])]\<rparr>"
          have "process_files sp tp files ?st = (e, st')"
            using Cons.prems(1) a json Some False Regular by (simp add: Let_def)
          moreover have "all_parsed (ops ?st)"
            using Cons.prems(2) Some by (simp add: all_parsed_copy)
          ultimately show ?thesis by (rule Cons.IH)
        next
          case (Unreadable err)
          have "ops st' = ops st"
            using Cons.prems(1) a json Some False Unreadable by (auto simp: Let_def)
          then show ?thesis using Cons.prems(2) by simp
        qed
      qed
    qed
  qed
qed

lemma process_variants_parsed:
  "process_variants sessionDir sp tp subjects st = (e, st') \<Longrightarrow> all_parsed (ops st) \<Longrightarrow>
     all_parsed (ops st')"
proof (induction subjects arbitrary: st)
  case Nil
  then show ?case by simp
next
  case (Cons subject subjects)
  obtain e1 st1 where step:
    "(case readdir_subject sessionDir subject of
        Inl e \<Rightarrow> (Some e, st)
      | Inr files \<Rightarrow> process_files (sp @ [subject]) tp files st) = (e1, st1)"
    by (cases "(case readdir_subject sessionDir subject of
        Inl e \<Rightarrow> (Some e, st)
      | Inr files \<Rightarrow> process_files (sp @ [subject]) tp files st)")
  have p1: "all_parsed (ops st1)"
    using step Cons.prems(2) by (auto split: sum.splits dest: process_files_parsed)
  show ?case
  proof (cases "e1 = None \<or> e1 = Some ENOENT \<or> e1 = Some ENOTDIR")
    case True
    then have "process_variants sessionDir sp tp subjects st1 = (e, st')"
      using Cons.prems(1) step by (auto split: if_splits)
    then show ?thesis using p1 by (rule Cons.IH)
  next
    case False
    then have "st' = st1" using Cons.prems(1) step by (cases e1) (auto split: if_splits)
    then show ?thesis using p1 by simp
  qed
qed

text \<open>One invocation, from the state in which both functions start.\<close>

lemma invocation:
  assumes "process_variants sessionDir sp tp subjects
             \<lparr>processedUnitCodes = [], processedFiles = 0, duplicatesFound = 0,
              ops = done @ [Mkdir tp]\<rparr> = (e, st)"
  shows "duplicatesFound st + length (processedUnitCodes st) = processedFiles st"
    and "distinct (processedUnitCodes st)"
    and "\<exists>xs. copied_codes (ops st) = copied_codes done @ xs \<and> subseq xs (processedUnitCodes st)"
    and "all_parsed done \<Longrightarrow> all_parsed (ops st)"
    and "e = None \<Longrightarrow> regular_session sessionDir \<Longrightarrow>
           copied_codes (ops st) = copied_codes done @ processedUnitCodes st \<and>
           copies (ops st) = copies done + length (processedUnitCodes st)"
proof -
  let ?st0 = "\<lparr>processedUnitCodes = [], processedFiles = 0, duplicatesFound = 0,
              ops = done @ [Mkdir tp]\<rparr>"
  have "merge_inv (copied_codes done) ?st0"
    by (simp add: merge_inv_def copied_codes_append copied_codes_mkdir)
  with assms have "merge_inv (copied_codes done) st" by (rule process_variants_inv)
  then show "duplicatesFound st + length (processedUnitCodes st) = processedFiles st"
    and "distinct (processedUnitCodes st)"
    and "\<exists>xs. copied_codes (ops st) = copied_codes done @ xs \<and> subseq xs (processedUnitCodes st)"
    by (simp_all add: merge_inv_def)
  show "all_parsed done \<Longrightarrow> all_parsed (ops st)"
    using process_variants_parsed[OF assms] by (simp add: all_parsed_mkdir)
  have ex0: "merge_exact (copied_codes done) (copies done) ?st0"
    by (simp add: merge_exact_def copied_codes_append copied_codes_mkdir copies_append)
       (simp add: copies_def)
  show "e = None \<Longrightarrow> regular_session sessionDir \<Longrightarrow>
           copied_codes (ops st) = copied_codes done @ processedUnitCodes st \<and>
           copies (ops st) = copies done + length (processedUnitCodes st)"
    using process_variants_exact[of sessionDir sp tp subjects ?st0 st, OF _ _ ex0] assms
    by (simp add: merge_exact_def)
qed

lemma group_call:
  assumes "(if list_ex isMathSubject subjectVariants
            then processMathSubjects sessionDir sp subjectVariants tsp done
            else processRegularSubjects sessionDir sp baseSubject subjectVariants tsp done) = (e, st)"
  obtains tp where "process_variants sessionDir sp tp subjectVariants
             \<lparr>processedUnitCodes = [], processedFiles = 0, duplicatesFound = 0,
              ops = done @ [Mkdir tp]\<rparr> = (e, st)"
  using assms by (auto simp: processMathSubjects_def processRegularSubjects_def Let_def split: if_splits)

lemma process_groups_bound:
  "process_groups sessionDir sp tsp groups acc = (None, acc') \<Longrightarrow> totals_bound acc \<Longrightarrow>
     totals_bound acc'"
proof (induction groups arbitrary: acc)
  case Nil
  then show ?case by simp
next
  case (Cons g groups)
  obtain baseSubject subjectVariants where g: "g = (baseSubject, subjectVariants)" by (cases g)
  obtain e st where call:
    "(if list_ex isMathSubject subjectVariants
      then processMathSubjects sessionDir sp subjectVariants tsp (performed acc)
      else processRegularSubjects sessionDir sp baseSubject subjectVariants tsp (performed acc)) = (e, st)"
    by (cases "(if list_ex isMathSubject subjectVariants
      then processMathSubjects sessionDir sp subjectVariants tsp (performed acc)
      else processRegularSubjects sessionDir sp baseSubject subjectVariants tsp (performed acc))")
  have e: "e = None" using Cons.prems(1) g call by (cases e) auto
  let ?acc = "\<lparr>totalFiles = totalFiles acc + processedFiles st,
               duplicates = duplicates acc + duplicatesFound st, performed = ops st\<rparr>"
  have next_call: "process_groups sessionDir sp tsp groups ?acc = (None, acc')"
    using Cons.prems(1) g call e by simp
  from call obtain tp where pv: "process_variants sessionDir sp tp subjectVariants
             \<lparr>processedUnitCodes = [], processedFiles = 0, duplicatesFound = 0,
              ops = performed acc @ [Mkdir tp]\<rparr> = (e, st)"
    by (rule group_call)
  have ap: "all_parsed (performed acc)" using Cons.prems(2) by (simp add: totals_bound_def)
  from invocation(3)[OF pv] obtain xs where xs:
    "copied_codes (ops st) = copied_codes (performed acc) @ xs" "subseq xs (processedUnitCodes st)"
    by blast
  have ap': "all_parsed (ops st)" using invocation(4)[OF pv ap] .
  have "length xs \<le> length (processedUnitCodes st)" using xs(2) by (rule list_emb_length)
  moreover have "copies (ops st) = copies (performed acc) + length xs"
    using ap ap' xs(1) by (simp add: all_parsed_def)
  ultimately have "totals_bound ?acc"
    using Cons.prems(2) invocation(1)[OF pv] ap' by (simp add: totals_bound_def)
  with next_call show ?case by (rule Cons.IH)
qed

lemma process_groups_exact:
  "process_groups sessionDir sp tsp groups acc = (None, acc') \<Longrightarrow> regular_session sessionDir \<Longrightarrow>
     totals_exact acc \<Longrightarrow> totals_exact acc'"
proof (induction groups arbitrary: acc)
  case Nil
  then show ?case by simp
next
  case (Cons g groups)
  obtain baseSubject subjectVariants where g: "g = (baseSubject, subjectVariants)" by (cases g)
  obtain e st where call:
    "(if list_ex isMathSubject subjectVariants
      then processMathSubjects sessionDir sp subjectVariants tsp (performed acc)
      else processRegularSubjects sessionDir sp baseSubject subjectVariants tsp (performed acc)) = (e, st)"
    by (cases "(if list_ex isMathSubject subjectVariants
      then processMathSubjects sessionDir sp subjectVariants tsp (performed acc)
      else processRegularSubjects sessionDir sp baseSubject subjectVariants tsp (performed acc))")
  have e: "e = None" using Cons.prems(1) g call by (cases e) auto
  let ?acc = "\<lparr>totalFiles = totalFiles acc + processedFiles st,
               duplicates = duplicates acc + duplicatesFound st, performed = ops st\<rparr>"
  have next_call: "process_groups sessionDir sp tsp groups ?acc = (None, acc')"
    using Cons.prems(1) g call e by simp
  from call obtain tp where pv: "process_variants sessionDir sp tp subjectVariants
             \<lparr>processedUnitCodes = [], processedFiles = 0, duplicatesFound = 0,
              ops = performed acc @ [Mkdir tp]\<rparr> = (e, st)"
    by (rule group_call)
  have "copies (ops st) = copies (performed acc) + length (processedUnitCodes st)"
    using invocation(5)[OF pv e Cons.prems(2)] by simp
  then have "totals_exact ?acc"
    using Cons.prems(3) invocation(1)[OF pv] by (simp add: totals_exact_def)
  with next_call Cons.prems(2) show ?case by (intro Cons.IH[of ?acc])
qed

lemma totals_mkdir:
  "totals_exact acc \<Longrightarrow> totals_exact (acc\<lparr>performed := performed acc @ [Mkdir p]\<rparr>)"
  "totals_bound acc \<Longrightarrow> totals_bound (acc\<lparr>performed := performed acc @ [Mkdir p]\<rparr>)"
  by (simp_all add: totals_exact_def totals_bound_def copies_append all_parsed_mkdir)
     (simp_all add: copies_def)

lemma process_session_dirs_totals:
  "process_session_dirs qualType qualDir acc = (None, acc') \<Longrightarrow>
     (totals_bound acc \<longrightarrow> totals_bound acc') \<and>
     (regular_qual qualDir \<and> totals_exact acc \<longrightarrow> totals_exact acc')"
proof (induction qualDir arbitrary: acc)
  case Nil
  then show ?case by simp
next
  case (Cons a sessions)
  obtain s node where a: "a = (s, node)" by (cases a)
  show ?case
  proof (cases node)
    case (Fails err)
    then show ?thesis using Cons.prems a by simp
  next
    case NotDir
    then have "process_session_dirs qualType sessions acc = (None, acc')"
      using Cons.prems a by simp
    from Cons.IH[OF this] show ?thesis using a NotDir by (simp add: regular_qual_def)
  next
    case (Dir sessionDir)
    let ?acc1 = "acc\<lparr>performed := performed acc @ [Mkdir [qualType, s]]\<rparr>"
    obtain subjectGroups where grp: "group_subjects (map fst sessionDir) [] = Inr subjectGroups"
      using Cons.prems a Dir by (cases "group_subjects (map fst sessionDir) []") (auto simp: Let_def)
    obtain acc2 where pg:
      "process_groups sessionDir [qualType, s] [qualType, s] (entries subjectGroups) ?acc1 = (None, acc2)"
      and rest: "process_session_dirs qualType sessions acc2 = (None, acc')"
      using Cons.prems a Dir grp
      by (auto simp: Let_def split: prod.splits option.splits)
    have b: "totals_bound acc \<longrightarrow> totals_bound acc2"
      using process_groups_bound[OF pg] totals_mkdir(2) by blast
    have x: "regular_session sessionDir \<and> totals_exact acc \<longrightarrow> totals_exact acc2"
      using process_groups_exact[OF pg] totals_mkdir(1) by blast
    have "regular_qual (a # sessions) \<longrightarrow> regular_session sessionDir \<and> regular_qual sessions"
      using a Dir by (simp add: regular_qual_def)
    then show ?thesis using Cons.IH[OF rest] b x by blast
  qed
qed

lemma process_qual_dirs_totals:
  "process_qual_dirs qualTypes acc = (None, acc') \<Longrightarrow>
     (totals_bound acc \<longrightarrow> totals_bound acc') \<and>
     (regular_source (Dir qualTypes) \<and> totals_exact acc \<longrightarrow> totals_exact acc')"
proof (induction qualTypes arbitrary: acc)
  case Nil
  then show ?case by simp
next
  case (Cons a qualTypes)
  obtain q node where a: "a = (q, node)" by (cases a)
  show ?case
  proof (cases node)
    case (Fails err)
    then show ?thesis using Cons.prems a by simp
  next
    case NotDir
    then have "process_qual_dirs qualTypes acc = (None, acc')"
      using Cons.prems a by simp
    from Cons.IH[OF this] show ?thesis using a NotDir by (simp add: regular_source_def)
  next
    case (Dir qualDir)
    let ?acc0 = "acc\<lparr>performed := performed acc @ [Mkdir [q]]\<rparr>"
    obtain acc1 where ps: "process_session_dirs q qualDir ?acc0 = (None, acc1)"
      and rest: "process_qual_dirs qualTypes acc1 = (None, acc')"
      using Cons.prems a Dir by (auto split: prod.splits option.splits)
    have b: "totals_bound acc \<longrightarrow> totals_bound acc1"
      using process_session_dirs_totals[OF ps] totals_mkdir(2) by blast
    have x: "regular_qual qualDir \<and> totals_exact acc \<longrightarrow> totals_exact acc1"
      using process_session_dirs_totals[OF ps] totals_mkdir(1) by blast
    have "regular_source (Dir (a # qualTypes)) \<longrightarrow> regular_qual qualDir \<and> regular_source (Dir qualTypes)"
      using a Dir by (simp add: regular_source_def)
    then show ?thesis using Cons.IH[OF rest] b x by blast
  qed
qed

lemma organizeData_totals:
  assumes "organizeData source = (None, t)"
  shows "duplicates t + copies (performed t) \<le> totalFiles t"
    and "regular_source source \<Longrightarrow> duplicates t + copies (performed t) = totalFiles t"
proof -
  let ?acc = "\<lparr>totalFiles = 0, duplicates = 0, performed = [Mkdir []]\<rparr>"
  from assms obtain qualTypes where src: "source = Dir qualTypes"
    and run: "process_qual_dirs qualTypes ?acc = (None, t)"
    by (cases source) (auto simp: organizeData_def Let_def)
  have "totals_bound ?acc" "totals_exact ?acc"
    by (simp_all add: totals_bound_def totals_exact_def all_parsed_def copies_def copied_codes_def)
  with process_qual_dirs_totals[OF run]
  show "duplicates t + copies (performed t) \<le> totalFiles t"
    and "regular_source source \<Longrightarrow> duplicates t + copies (performed t) = totalFiles t"
    using src by (simp_all add: totals_bound_def totals_exact_def)
qed

section \<open>Invariants of the orchestrator\<close>

text \<open>
  A run only adds to the ledger, and when a loop of the run has passed a unit, a subject or
  a session, the ledger has decided every unit that was listed there. A run that meets
  only decided units leaves the ledger's sets alone and makes no call at the unit level.
\<close>


text \<open>The tracker methods, seen through the lookups.\<close>

lemma tree_has_add:
  "tree_has (fst (tree_add t q s subj u)) q' s' subj' u' \<longleftrightarrow>
     tree_has t q' s' subj' u' \<or> (q' = q \<and> s' = s \<and> subj' = subj \<and> u' = u)"
  by (auto simp: tree_has_def tree_add_def Let_def split: option.splits)

lemma isCompleted_markAsCompleted:
  "isCompleted (markAsCompleted q s subj u p) q' s' subj' u' \<longleftrightarrow>
     isCompleted p q' s' subj' u' \<or> (q' = q \<and> s' = s \<and> subj' = subj \<and> u' = u)"
  using tree_has_add[of "completed p" q s subj u q' s' subj' u']
  by (auto simp: isCompleted_def markAsCompleted_def split: prod.splits bool.splits)

lemma hasFailed_markAsFailed:
  "hasFailed (markAsFailed q s subj u m p) q' s' subj' u' \<longleftrightarrow>
     hasFailed p q' s' subj' u' \<or> (q' = q \<and> s' = s \<and> subj' = subj \<and> u' = u)"
  using tree_has_add[of "failed p" q s subj u q' s' subj' u']
  by (auto simp: hasFailed_def markAsFailed_def split: prod.splits bool.splits)

lemma markAsCompleted_other:
  "failed (markAsCompleted q s subj u p) = failed p"
  "completedSessions (markAsCompleted q s subj u p) = completedSessions p"
  "totalSessions (stats (markAsCompleted q s subj u p)) = totalSessions (stats p)"
  by (auto simp: markAsCompleted_def split: prod.splits bool.splits)

lemma markAsFailed_other:
  "completed (markAsFailed q s subj u m p) = completed p"
  "completedSessions (markAsFailed q s subj u m p) = completedSessions p"
  "totalSessions (stats (markAsFailed q s subj u m p)) = totalSessions (stats p)"
  by (auto simp: markAsFailed_def split: prod.splits bool.splits)

lemma grows_refl: "grows p p"
  by (simp add: grows_def)

lemma grows_trans: "grows p p' \<Longrightarrow> grows p' p'' \<Longrightarrow> grows p p''"
  by (simp add: grows_def)

lemma grows_lastUpdate: "grows p (p\<lparr>lastUpdate := l\<rparr>)"
  by (simp add: grows_def isCompleted_def hasFailed_def isSessionCompleted_def)

lemma grows_markAsCompleted: "grows p (markAsCompleted q s subj u p)"
  by (simp add: grows_def isCompleted_markAsCompleted markAsCompleted_other hasFailed_def
        isSessionCompleted_def)

lemma grows_markAsFailed: "grows p (markAsFailed q s subj u m p)"
  by (simp add: grows_def hasFailed_markAsFailed markAsFailed_other isCompleted_def
        isSessionCompleted_def)

lemma grows_decided: "grows p p' \<Longrightarrow> decided p s subj u \<Longrightarrow> decided p' s subj u"
  by (auto simp: grows_def decided_def)

lemma progress_save: "progress (save st) = (progress st)\<lparr>lastUpdate := Some (clock st)\<rparr>"
  by (simp add: save_def Let_def)

lemma progress_tracker: "progress (tracker f st) = f (progress st)"
  by (simp add: tracker_def)

lemma progress_adapter: "progress (adapter a st) = progress st"
  by (simp add: adapter_def)

lemma progress_saveData: "progress (saveData d q s subj u st) = progress st"
  by (simp add: saveData_def)

lemma lookups_lastUpdate:
  "isCompleted (p\<lparr>lastUpdate := l\<rparr>) q s subj u = isCompleted p q s subj u"
  "hasFailed (p\<lparr>lastUpdate := l\<rparr>) q s subj u = hasFailed p q s subj u"
  "isSessionCompleted (p\<lparr>lastUpdate := l\<rparr>) q s = isSessionCompleted p q s"
  by (simp_all add: isCompleted_def hasFailed_def isSessionCompleted_def)

lemma processUnit_grows:
  "processUnit site QUALIFICATION_TYPE s subj u st = (r, st') \<Longrightarrow>
     grows (progress st) (progress st') \<and>
     (case r of Inr b \<Rightarrow> decided (progress st') s subj u | Inl m \<Rightarrow> True)"
  by (cases "unitPage site s subj u")
     (auto simp: processUnit_def Let_def progress_save progress_tracker progress_adapter
        progress_saveData lookups_lastUpdate decided_def hasFailed_markAsFailed
        isCompleted_markAsCompleted
        intro!: grows_trans[OF grows_markAsFailed grows_lastUpdate]
                grows_trans[OF grows_markAsCompleted grows_lastUpdate] grows_refl
        split: if_splits)

lemma process_units_grows:
  "process_units site QUALIFICATION_TYPE s subj units k st = (k', st') \<Longrightarrow>
     grows (progress st) (progress st') \<and> list_all (decided (progress st') s subj) units"
proof (induction units arbitrary: k st)
  case Nil
  then show ?case by (simp add: grows_refl)
next
  case (Cons u units)
  show ?case
  proof (cases "decided (progress st) s subj u")
    case True
    then have "\<exists>k1. process_units site QUALIFICATION_TYPE s subj units k1 st = (k', st')"
      using Cons.prems by (auto simp: decided_def split: if_splits)
    then obtain k1 where "process_units site QUALIFICATION_TYPE s subj units k1 st = (k', st')" ..
    from Cons.IH[OF this] show ?thesis using True by (auto intro: grows_decided)
  next
    case False
    obtain r st1 where pu: "processUnit site QUALIFICATION_TYPE s subj u st = (r, st1)"
      by (cases "processUnit site QUALIFICATION_TYPE s subj u st")
    from processUnit_grows[OF pu] have g1: "grows (progress st) (progress st1)"
      and d1: "case r of Inr b \<Rightarrow> decided (progress st1) s subj u | Inl m \<Rightarrow> True" by simp_all
    show ?thesis
    proof (cases r)
      case (Inr b)
      then have "\<exists>k1. process_units site QUALIFICATION_TYPE s subj units k1 st1 = (k', st')"
        using Cons.prems False pu by (auto simp: decided_def split: if_splits)
      then obtain k1 where "process_units site QUALIFICATION_TYPE s subj units k1 st1 = (k', st')" ..
      from Cons.IH[OF this] show ?thesis using g1 d1 Inr
        by (auto intro: grows_decided grows_trans)
    next
      case (Inl m)
      let ?st2 = "save (tracker (markAsFailed QUALIFICATION_TYPE s subj u m) st1)"
      have "process_units site QUALIFICATION_TYPE s subj units (k + 1) ?st2 = (k', st')"
        using Cons.prems False pu Inl by (auto simp: decided_def split: if_splits)
      from Cons.IH[OF this] have g2: "grows (progress ?st2) (progress st')"
        and rest: "list_all (decided (progress st') s subj) units" by simp_all
      have g12: "grows (progress st1) (progress ?st2)"
        by (simp add: progress_save progress_tracker grows_trans[OF grows_markAsFailed grows_lastUpdate])
      have "decided (progress ?st2) s subj u"
        by (simp add: progress_save progress_tracker lookups_lastUpdate decided_def hasFailed_markAsFailed)
      then show ?thesis using g1 g12 g2 rest by (auto intro: grows_decided grows_trans)
    qed
  qed
qed

text \<open>The first run: every loop lets the ledger grow and settles what it has passed.\<close>

lemma grows_updateStats:
  "ts = totalSessions (stats p) \<Longrightarrow> grows p (updateStats ts tsub tu p)"
  by (simp add: grows_def updateStats_def isCompleted_def hasFailed_def isSessionCompleted_def)

lemma grows_markSessionAsCompleted: "grows p (markSessionAsCompleted q s p)"
  by (auto simp: grows_def markSessionAsCompleted_def Let_def isCompleted_def hasFailed_def
        isSessionCompleted_def split: option.splits)

lemma grows_save_tracker:
  "grows (progress st) (f (progress st)) \<Longrightarrow> grows (progress st) (progress (save (tracker f st)))"
  by (simp add: progress_save progress_tracker grows_trans[OF _ grows_lastUpdate])

lemma grows_save_updateStats:
  "ts = totalSessions (stats (progress st)) \<Longrightarrow>
     grows (progress st) (progress (save (tracker (updateStats ts a b) st)))"
  by (rule grows_save_tracker) (rule grows_updateStats)

lemma grows_save_markSession:
  "grows (progress st) (progress (save (tracker (markSessionAsCompleted q s) st)))"
  by (rule grows_save_tracker) (rule grows_markSessionAsCompleted)

lemma grows_subject_settled:
  "grows p p' \<Longrightarrow> subject_settled site p s subj \<Longrightarrow> subject_settled site p' s subj"
  by (auto simp: subject_settled_def list_all_iff split: sum.splits intro: grows_decided)

lemma grows_session_settled:
  "grows p p' \<Longrightarrow> session_settled lc site p s \<Longrightarrow> session_settled lc site p' s"
  by (auto simp: session_settled_def list_all_iff split: sum.splits intro: grows_subject_settled)

lemma grows_flag:
  "grows p p' \<Longrightarrow> isSessionCompleted p QUALIFICATION_TYPE s \<Longrightarrow>
     isSessionCompleted p' QUALIFICATION_TYPE s"
  by (simp add: grows_def)

lemma getSummary_totals:
  "totalSessions (getSummary p) = totalSessions (stats p)"
  "totalSubjects (getSummary p) = totalSubjects (stats p)"
  "totalUnits (getSummary p) = totalUnits (stats p)"
  by (simp_all add: getSummary_def)

lemma processSubject_grows:
  assumes "processSubject site QUALIFICATION_TYPE s subj st = (r, st')"
  shows "grows (progress st) (progress st') \<and> subject_settled site (progress st') s subj"
proof (cases "unitLinks site s subj")
  case (Inl e)
  then show ?thesis using assms
    by (auto simp: processSubject_def Let_def progress_adapter grows_refl subject_settled_def)
next
  case (Inr units)
  let ?st1 = "adapter (SelectSubject subj) st"
  let ?st2 = "save (tracker (updateStats (totalSessions (getSummary (progress ?st1)))
                (totalSubjects (getSummary (progress ?st1)))
                (totalUnits (getSummary (progress ?st1)) + length units)) ?st1)"
  have "grows (progress ?st1) (progress ?st2)"
    by (rule grows_save_updateStats) (simp add: getSummary_totals)
  then have g2: "grows (progress st) (progress ?st2)"
    by (simp add: progress_adapter)
  show ?thesis
  proof (cases "units = []")
    case True
    then have "st' = ?st2" using assms Inr by (simp add: processSubject_def Let_def)
    then show ?thesis using g2 Inr True by (simp add: subject_settled_def)
  next
    case False
    then obtain k where pu: "process_units site QUALIFICATION_TYPE s subj units 0 ?st2 = (k, st')"
      using assms Inr by (auto simp: processSubject_def Let_def split: prod.splits)
    from process_units_grows[OF pu] show ?thesis using g2 Inr
      by (auto simp: subject_settled_def intro: grows_trans)
  qed
qed

lemma process_subjects_grows:
  "process_subjects site s subjs a b st = (r, st') \<Longrightarrow>
     grows (progress st) (progress st') \<and> list_all (subject_settled site (progress st') s) subjs"
proof (induction subjs arbitrary: a b st)
  case Nil
  then show ?case by (simp add: grows_refl)
next
  case (Cons subj subjs)
  obtain r1 st1 where ps: "processSubject site QUALIFICATION_TYPE s subj st = (r1, st1)"
    by (cases "processSubject site QUALIFICATION_TYPE s subj st")
  then have "\<exists>a1 b1. process_subjects site s subjs a1 b1 st1 = (r, st')"
    using Cons.prems by (auto split: sum.splits prod.splits)
  then obtain a1 b1 where "process_subjects site s subjs a1 b1 st1 = (r, st')" by blast
  from Cons.IH[OF this] processSubject_grows[OF ps] show ?case
    by (auto intro: grows_trans grows_subject_settled)
qed

lemma process_sessions_grows:
  "totalSessions (stats (progress st)) = n \<Longrightarrow>
   process_sessions lc site n ss k st = st' \<Longrightarrow>
     grows (progress st) (progress st') \<and>
     (\<forall>s\<in>set ss. isSessionCompleted (progress st') QUALIFICATION_TYPE s \<or>
                 session_settled lc site (progress st') s)"
proof (induction ss arbitrary: k st)
  case Nil
  then show ?case by (simp add: grows_refl)
next
  case (Cons s ss)
  have step: "\<exists>k1 st1. process_sessions lc site n ss k1 st1 = st' \<and>
                grows (progress st) (progress st1) \<and>
                (isSessionCompleted (progress st1) QUALIFICATION_TYPE s \<or>
                 session_settled lc site (progress st1) s)"
  proof (cases "isSessionCompleted (progress st) QUALIFICATION_TYPE s")
    case True
    then show ?thesis using Cons.prems(2) by (auto intro: grows_refl)
  next
    case flag: False
    let ?st1 = "adapter (NavigateToSession s) st"
    show ?thesis
    proof (cases "subjectLinks site s")
      case (Inl e)
      then have "process_sessions lc site n ss k ?st1 = st'"
        using Cons.prems(2) flag by (simp add: Let_def)
      moreover have "session_settled lc site (progress ?st1) s"
        using Inl by (simp add: session_settled_def)
      moreover have "grows (progress st) (progress ?st1)"
        by (simp add: progress_adapter grows_refl)
      ultimately show ?thesis by blast
    next
      case (Inr subjects)
      let ?fs = "filter (shouldProcessSubject lc) subjects"
      let ?st2 = "save (tracker (updateStats n (k + length ?fs) 0) ?st1)"
      have "grows (progress ?st1) (progress ?st2)"
        by (rule grows_save_updateStats) (simp add: progress_adapter Cons.prems(1))
      then have g2: "grows (progress st) (progress ?st2)"
        by (simp add: progress_adapter)
      obtain a b st3 where psub: "process_subjects site s ?fs 0 0 ?st2 = ((a, b), st3)"
        by (cases "process_subjects site s ?fs 0 0 ?st2") auto
      from process_subjects_grows[OF psub] have g3: "grows (progress ?st2) (progress st3)"
        and settled: "list_all (subject_settled site (progress st3) s) ?fs" by simp_all
      have ss3: "session_settled lc site (progress st3) s"
        using settled Inr by (simp add: session_settled_def)
      let ?st4 = "if a > 0 \<and> b = a
                  then save (tracker (markSessionAsCompleted QUALIFICATION_TYPE s) st3) else st3"
      have run: "process_sessions lc site n ss (k + length ?fs) ?st4 = st'"
        using Cons.prems(2) flag Inr psub by (simp add: Let_def)
      have g4: "grows (progress st3) (progress ?st4)"
        by (simp add: grows_refl grows_save_markSession)
      have "session_settled lc site (progress ?st4) s"
        using grows_session_settled[OF g4 ss3] .
      moreover have "grows (progress st) (progress ?st4)"
        using g2 g3 g4 by (blast intro: grows_trans)
      ultimately show ?thesis using run by blast
    qed
  qed
  then obtain k1 st1 where run: "process_sessions lc site n ss k1 st1 = st'"
    and g1: "grows (progress st) (progress st1)"
    and s1: "isSessionCompleted (progress st1) QUALIFICATION_TYPE s \<or>
             session_settled lc site (progress st1) s" by blast
  have n1: "totalSessions (stats (progress st1)) = n"
    using g1 Cons.prems(1) by (simp add: grows_def)
  from Cons.IH[OF n1 run] have g': "grows (progress st1) (progress st')"
    and rest: "\<forall>s\<in>set ss. isSessionCompleted (progress st') QUALIFICATION_TYPE s \<or>
                 session_settled lc site (progress st') s" by simp_all
  have "isSessionCompleted (progress st') QUALIFICATION_TYPE s \<or>
        session_settled lc site (progress st') s"
    using s1 g' by (auto intro: grows_flag grows_session_settled)
  then show ?case using rest g1 g' by (auto intro: grows_trans)
qed

text \<open>The second run: loops that meet only decided units are quiet.\<close>

lemma quiet_refl: "quiet st st"
  by (simp add: quiet_def)

lemma quiet_trans: "quiet st st' \<Longrightarrow> quiet st' st'' \<Longrightarrow> quiet st st''"
  by (auto simp: quiet_def)

lemma decided_cong:
  "completed p' = completed p \<Longrightarrow> failed p' = failed p \<Longrightarrow> decided p' s subj u = decided p s subj u"
  by (simp add: decided_def isCompleted_def hasFailed_def)

lemma quiet_subject_settled:
  "quiet st st' \<Longrightarrow> subject_settled site (progress st') s subj = subject_settled site (progress st) s subj"
proof -
  assume "quiet st st'"
  then have "decided (progress st') s subj = decided (progress st) s subj"
    by (intro ext decided_cong) (simp_all add: quiet_def)
  then show ?thesis by (simp add: subject_settled_def split: sum.splits)
qed

lemma quiet_session_settled:
  "quiet st st' \<Longrightarrow> session_settled lc site (progress st') s = session_settled lc site (progress st) s"
proof -
  assume "quiet st st'"
  then have "subject_settled site (progress st') s = subject_settled site (progress st) s"
    by (intro ext quiet_subject_settled)
  then show ?thesis by (simp add: session_settled_def split: sum.splits)
qed

lemma quiet_adapter: "\<not> unit_level a \<Longrightarrow> quiet st (adapter a st)"
  by (simp add: quiet_def adapter_def)

lemma quiet_save_updateStats:
  "ts = totalSessions (stats (progress st)) \<Longrightarrow> quiet st (save (tracker (updateStats ts a b) st))"
  by (simp add: quiet_def save_def tracker_def updateStats_def Let_def isSessionCompleted_def)

lemma quiet_save_markSession:
  "quiet st (save (tracker (markSessionAsCompleted q s) st))"
  by (auto simp: quiet_def save_def tracker_def markSessionAsCompleted_def Let_def
        isSessionCompleted_def split: option.splits)

lemma quiet_save: "quiet st (save st)"
  by (simp add: quiet_def save_def Let_def isSessionCompleted_def)

lemma process_units_decided:
  "list_all (decided (progress st) s subj) units \<Longrightarrow>
     process_units site QUALIFICATION_TYPE s subj units k st = (k + length units, st)"
  by (induction units arbitrary: k) (auto simp: decided_def)

lemma processSubject_quiet:
  assumes "subject_settled site (progress st) s subj"
    and "processSubject site QUALIFICATION_TYPE s subj st = (r, st')"
  shows "quiet st st'"
proof (cases "unitLinks site s subj")
  case (Inl e)
  then show ?thesis using assms(2)
    by (auto simp: processSubject_def Let_def unit_level_def intro: quiet_adapter)
next
  case (Inr units)
  let ?st1 = "adapter (SelectSubject subj) st"
  let ?st2 = "save (tracker (updateStats (totalSessions (getSummary (progress ?st1)))
                (totalSubjects (getSummary (progress ?st1)))
                (totalUnits (getSummary (progress ?st1)) + length units)) ?st1)"
  have q1: "quiet st ?st1" by (rule quiet_adapter) (simp add: unit_level_def)
  have q12: "quiet ?st1 ?st2" by (rule quiet_save_updateStats) (simp add: getSummary_totals)
  have q2: "quiet st ?st2" using q1 q12 by (rule quiet_trans)
  have "subject_settled site (progress ?st2) s subj"
    using assms(1) quiet_subject_settled[OF q2] by simp
  then have "list_all (decided (progress ?st2) s subj) units"
    using Inr by (simp add: subject_settled_def)
  then have "process_units site QUALIFICATION_TYPE s subj units 0 ?st2 = (0 + length units, ?st2)"
    by (rule process_units_decided)
  then have "st' = ?st2"
    using assms(2) Inr by (auto simp: processSubject_def Let_def split: if_splits)
  then show ?thesis using q2 by simp
qed

lemma process_subjects_quiet:
  "list_all (subject_settled site (progress st) s) subjs \<Longrightarrow>
   process_subjects site s subjs a b st = (r, st') \<Longrightarrow> quiet st st'"
proof (induction subjs arbitrary: a b st)
  case Nil
  then show ?case by (simp add: quiet_refl)
next
  case (Cons subj subjs)
  obtain r1 st1 where ps: "processSubject site QUALIFICATION_TYPE s subj st = (r1, st1)"
    by (cases "processSubject site QUALIFICATION_TYPE s subj st")
  have q1: "quiet st st1" using Cons.prems(1) ps by (auto intro: processSubject_quiet)
  have settled1: "list_all (subject_settled site (progress st1) s) subjs"
    using Cons.prems(1) quiet_subject_settled[OF q1] by (simp add: list_all_iff)
  have "\<exists>a1 b1. process_subjects site s subjs a1 b1 st1 = (r, st')"
    using Cons.prems(2) ps by (auto split: sum.splits prod.splits)
  then obtain a1 b1 where "process_subjects site s subjs a1 b1 st1 = (r, st')" by blast
  from Cons.IH[OF settled1 this] q1 show ?case by (blast intro: quiet_trans)
qed

lemma process_sessions_quiet:
  "totalSessions (stats (progress st)) = n \<Longrightarrow>
   \<forall>s\<in>set ss. isSessionCompleted (progress st) QUALIFICATION_TYPE s \<or>
               session_settled lc site (progress st) s \<Longrightarrow>
   quiet st (process_sessions lc site n ss k st)"
proof (induction ss arbitrary: k st)
  case Nil
  then show ?case by (simp add: quiet_refl)
next
  case (Cons s ss)
  have step: "\<exists>k1 st1. process_sessions lc site n (s # ss) k st = process_sessions lc site n ss k1 st1 \<and>
                quiet st st1"
  proof (cases "isSessionCompleted (progress st) QUALIFICATION_TYPE s")
    case True
    then have "process_sessions lc site n (s # ss) k st = process_sessions lc site n ss k st"
      by simp
    then show ?thesis using quiet_refl by blast
  next
    case flag: False
    then have settled: "session_settled lc site (progress st) s" using Cons.prems(2) by simp
    let ?st1 = "adapter (NavigateToSession s) st"
    have q1: "quiet st ?st1" by (rule quiet_adapter) (simp add: unit_level_def)
    show ?thesis
    proof (cases "subjectLinks site s")
      case (Inl e)
      then have "process_sessions lc site n (s # ss) k st = process_sessions lc site n ss k ?st1"
        using flag by (simp add: Let_def)
      then show ?thesis using q1 by blast
    next
      case (Inr subjects)
      let ?fs = "filter (shouldProcessSubject lc) subjects"
      let ?st2 = "save (tracker (updateStats n (k + length ?fs) 0) ?st1)"
      have q12: "quiet ?st1 ?st2"
        by (rule quiet_save_updateStats) (simp add: progress_adapter Cons.prems(1))
      have q2: "quiet st ?st2" using q1 q12 by (rule quiet_trans)
      have "list_all (subject_settled site (progress st) s) ?fs"
        using settled Inr by (simp add: session_settled_def)
      then have settled2: "list_all (subject_settled site (progress ?st2) s) ?fs"
        using quiet_subject_settled[OF q2] by (simp add: list_all_iff)
      obtain a b st3 where psub: "process_subjects site s ?fs 0 0 ?st2 = ((a, b), st3)"
        by (cases "process_subjects site s ?fs 0 0 ?st2") auto
      have q23: "quiet ?st2 st3" using settled2 psub by (rule process_subjects_quiet)
      let ?st4 = "if a > 0 \<and> b = a
                  then save (tracker (markSessionAsCompleted QUALIFICATION_TYPE s) st3) else st3"
      have q34: "quiet st3 ?st4" by (simp add: quiet_refl quiet_save_markSession)
      have "process_sessions lc site n (s # ss) k st =
              process_sessions lc site n ss (k + length ?fs) ?st4"
        using flag Inr psub by (simp add: Let_def)
      moreover have "quiet st ?st4" using q2 q23 q34 by (blast intro: quiet_trans)
      ultimately show ?thesis by blast
    qed
  qed
  then obtain k1 st1 where eq: "process_sessions lc site n (s # ss) k st = process_sessions lc site n ss k1 st1"
    and q1: "quiet st st1" by blast
  have n1: "totalSessions (stats (progress st1)) = n" using q1 Cons.prems(1) by (simp add: quiet_def)
  have "\<forall>s\<in>set ss. isSessionCompleted (progress st1) QUALIFICATION_TYPE s \<or>
               session_settled lc site (progress st1) s"
    using Cons.prems(2) q1 quiet_session_settled[OF q1] by (auto simp: quiet_def)
  from Cons.IH[OF n1 this] have "quiet st1 (process_sessions lc site n ss k1 st1)" .
  with q1 show ?case unfolding eq by (rule quiet_trans)
qed

text \<open>
  The session flags change only where \<open>scrapeSeries\<close> marks the session it has just
  walked, so a session that a run flags is settled at the end of the run: the flag is never
  set while a unit listed under the session is neither completed nor failed.
\<close>

lemma processUnit_flags:
  "processUnit site q s subj u st = (r, st') \<Longrightarrow>
     completedSessions (progress st') = completedSessions (progress st)"
  by (cases "unitPage site s subj u")
     (auto simp: processUnit_def Let_def progress_save progress_tracker progress_adapter
        progress_saveData markAsFailed_other markAsCompleted_other split: if_splits)

lemma process_units_flags:
  "process_units site q s subj units k st = (k', st') \<Longrightarrow>
     completedSessions (progress st') = completedSessions (progress st)"
proof (induction units arbitrary: k st)
  case Nil
  then show ?case by simp
next
  case (Cons u units)
  show ?case
  proof (cases "isCompleted (progress st) q s subj u \<or> hasFailed (progress st) q s subj u")
    case True
    then have "\<exists>k1. process_units site q s subj units k1 st = (k', st')"
      using Cons.prems by (auto split: if_splits)
    then show ?thesis using Cons.IH by blast
  next
    case False
    obtain r st1 where pu: "processUnit site q s subj u st = (r, st1)"
      by (cases "processUnit site q s subj u st")
    note f1 = processUnit_flags[OF pu]
    show ?thesis
    proof (cases r)
      case (Inr b)
      then have "\<exists>k1. process_units site q s subj units k1 st1 = (k', st')"
        using Cons.prems False pu by (auto split: if_splits)
      then show ?thesis using Cons.IH f1 by force
    next
      case (Inl m)
      let ?st2 = "save (tracker (markAsFailed q s subj u m) st1)"
      have "process_units site q s subj units (k + 1) ?st2 = (k', st')"
        using Cons.prems False pu Inl by (auto split: if_splits)
      from Cons.IH[OF this] show ?thesis using f1
        by (simp add: progress_save progress_tracker markAsFailed_other)
    qed
  qed
qed

lemma processSubject_flags:
  "processSubject site q s subj st = (r, st') \<Longrightarrow>
     completedSessions (progress st') = completedSessions (progress st)"
proof (cases "unitLinks site s subj")
  case (Inl e)
  assume "processSubject site q s subj st = (r, st')"
  then show ?thesis using Inl by (auto simp: processSubject_def Let_def progress_adapter)
next
  case (Inr units)
  assume a: "processSubject site q s subj st = (r, st')"
  let ?st1 = "adapter (SelectSubject subj) st"
  let ?st2 = "save (tracker (updateStats (totalSessions (getSummary (progress ?st1)))
                (totalSubjects (getSummary (progress ?st1)))
                (totalUnits (getSummary (progress ?st1)) + length units)) ?st1)"
  have f2: "completedSessions (progress ?st2) = completedSessions (progress st)"
    by (simp add: progress_save progress_tracker progress_adapter updateStats_def)
  show ?thesis
  proof (cases "units = []")
    case True
    then have "st' = ?st2" using a Inr by (simp add: processSubject_def Let_def)
    then show ?thesis using f2 by simp
  next
    case False
    then obtain k where "process_units site q s subj units 0 ?st2 = (k, st')"
      using a Inr by (auto simp: processSubject_def Let_def split: prod.splits)
    from process_units_flags[OF this] show ?thesis using f2 by simp
  qed
qed

lemma process_subjects_flags:
  "process_subjects site s subjs a b st = (r, st') \<Longrightarrow>
     completedSessions (progress st') = completedSessions (progress st)"
proof (induction subjs arbitrary: a b st)
  case Nil
  then show ?case by simp
next
  case (Cons subj subjs)
  obtain r1 st1 where ps: "processSubject site QUALIFICATION_TYPE s subj st = (r1, st1)"
    by (cases "processSubject site QUALIFICATION_TYPE s subj st")
  then have "\<exists>a1 b1. process_subjects site s subjs a1 b1 st1 = (r, st')"
    using Cons.prems by (auto split: sum.splits prod.splits)
  then obtain a1 b1 where "process_subjects site s subjs a1 b1 st1 = (r, st')" by blast
  from Cons.IH[OF this] processSubject_flags[OF ps] show ?case by simp
qed

lemma flag_after_mark:
  "isSessionCompleted (markSessionAsCompleted q s p) q x \<longleftrightarrow> isSessionCompleted p q x \<or> x = s"
  by (auto simp: markSessionAsCompleted_def Let_def isSessionCompleted_def split: option.splits)

lemma flags_cong:
  "completedSessions p' = completedSessions p \<Longrightarrow> isSessionCompleted p' q x = isSessionCompleted p q x"
  by (simp add: isSessionCompleted_def)

lemma process_sessions_flags:
  "totalSessions (stats (progress st)) = n \<Longrightarrow>
   process_sessions lc site n ss k st = st' \<Longrightarrow>
   isSessionCompleted (progress st') QUALIFICATION_TYPE x \<Longrightarrow>
     isSessionCompleted (progress st) QUALIFICATION_TYPE x \<or>
     session_settled lc site (progress st') x"
proof (induction ss arbitrary: k st)
  case Nil
  then show ?case by simp
next
  case (Cons s ss)
  have step: "\<exists>k1 st1. process_sessions lc site n ss k1 st1 = st' \<and>
                grows (progress st) (progress st1) \<and>
                (\<forall>y. isSessionCompleted (progress st1) QUALIFICATION_TYPE y \<longrightarrow>
                   isSessionCompleted (progress st) QUALIFICATION_TYPE y \<or>
                   (y = s \<and> session_settled lc site (progress st1) s))"
  proof (cases "isSessionCompleted (progress st) QUALIFICATION_TYPE s")
    case True
    then have "process_sessions lc site n ss k st = st'" using Cons.prems(2) by simp
    then show ?thesis using grows_refl by blast
  next
    case flag: False
    let ?st1 = "adapter (NavigateToSession s) st"
    show ?thesis
    proof (cases "subjectLinks site s")
      case (Inl e)
      then have "process_sessions lc site n ss k ?st1 = st'"
        using Cons.prems(2) flag by (simp add: Let_def)
      moreover have "grows (progress st) (progress ?st1)"
        by (simp add: progress_adapter grows_refl)
      moreover have "\<forall>y. isSessionCompleted (progress ?st1) QUALIFICATION_TYPE y \<longrightarrow>
                   isSessionCompleted (progress st) QUALIFICATION_TYPE y"
        by (simp add: progress_adapter)
      ultimately show ?thesis by blast
    next
      case (Inr subjects)
      let ?fs = "filter (shouldProcessSubject lc) subjects"
      let ?st2 = "save (tracker (updateStats n (k + length ?fs) 0) ?st1)"
      have "grows (progress ?st1) (progress ?st2)"
        by (rule grows_save_updateStats) (simp add: progress_adapter Cons.prems(1))
      then have g2: "grows (progress st) (progress ?st2)"
        by (simp add: progress_adapter)
      have f2: "completedSessions (progress ?st2) = completedSessions (progress st)"
        by (simp add: progress_save progress_tracker progress_adapter updateStats_def)
      obtain a b st3 where psub: "process_subjects site s ?fs 0 0 ?st2 = ((a, b), st3)"
        by (cases "process_subjects site s ?fs 0 0 ?st2") auto
      from process_subjects_grows[OF psub] have g3: "grows (progress ?st2) (progress st3)"
        and settled: "list_all (subject_settled site (progress st3) s) ?fs" by simp_all
      have f3: "completedSessions (progress st3) = completedSessions (progress st)"
        using process_subjects_flags[OF psub] f2 by simp
      have ss3: "session_settled lc site (progress st3) s"
        using settled Inr by (simp add: session_settled_def)
      let ?st4 = "if a > 0 \<and> b = a
                  then save (tracker (markSessionAsCompleted QUALIFICATION_TYPE s) st3) else st3"
      have run: "process_sessions lc site n ss (k + length ?fs) ?st4 = st'"
        using Cons.prems(2) flag Inr psub by (simp add: Let_def)
      have g4: "grows (progress st3) (progress ?st4)"
        by (simp add: grows_refl grows_save_markSession)
      have ss4: "session_settled lc site (progress ?st4) s"
        using grows_session_settled[OF g4 ss3] .
      have g: "grows (progress st) (progress ?st4)"
        using g2 g3 g4 by (blast intro: grows_trans)
      have "\<forall>y. isSessionCompleted (progress ?st4) QUALIFICATION_TYPE y \<longrightarrow>
                 isSessionCompleted (progress st) QUALIFICATION_TYPE y \<or> y = s"
        using flags_cong[OF f3]
        by (auto simp: progress_save progress_tracker lookups_lastUpdate flag_after_mark)
      then show ?thesis using run g ss4 by blast
    qed
  qed
  then obtain k1 st1 where run: "process_sessions lc site n ss k1 st1 = st'"
    and g1: "grows (progress st) (progress st1)"
    and f1: "\<forall>y. isSessionCompleted (progress st1) QUALIFICATION_TYPE y \<longrightarrow>
                   isSessionCompleted (progress st) QUALIFICATION_TYPE y \<or>
                   (y = s \<and> session_settled lc site (progress st1) s)" by blast
  have n1: "totalSessions (stats (progress st1)) = n"
    using g1 Cons.prems(1) by (simp add: grows_def)
  have g': "grows (progress st1) (progress st')"
    using process_sessions_grows[OF n1 run] by simp
  from Cons.IH[OF n1 run Cons.prems(3)]
  have "isSessionCompleted (progress st1) QUALIFICATION_TYPE x \<or>
        session_settled lc site (progress st') x" .
  then show ?case using f1 g' by (auto intro: grows_session_settled)
qed

lemma flag_only_when_settled:
  assumes run: "scrapeSeries lc site ledger now files = Inr st1"
    and flagged: "isSessionCompleted (progress st1) QUALIFICATION_TYPE x"
    and fresh: "\<not> isSessionCompleted
                 (progress (initialize \<lparr>progress = ProgressTracker, disk = ledger, clock = now,
                                         artifacts = files, trace = []\<rparr>)) QUALIFICATION_TYPE x"
  shows "session_settled lc site (progress st1) x"
proof -
  from run obtain sl where sl: "sessionLinks site = Inr sl"
    by (cases "sessionLinks site") (auto simp: scrapeSeries_def Let_def)
  let ?valid = "filter valid_session sl"
  let ?n = "length ?valid"
  have nonempty: "?n \<noteq> 0"
    using run sl by (auto simp: scrapeSeries_def Let_def split: if_splits)
  let ?st0 = "initialize \<lparr>progress = ProgressTracker, disk = ledger, clock = now,
                          artifacts = files, trace = []\<rparr>"
  let ?stA = "save (tracker (updateStats ?n 0 0) ?st0)"
  let ?stB = "process_sessions lc site ?n ?valid 0 ?stA"
  have st1: "st1 = save ?stB"
    using run sl nonempty by (simp add: scrapeSeries_def Let_def)
  have nA: "totalSessions (stats (progress ?stA)) = ?n"
    by (simp add: save_def tracker_def updateStats_def Let_def)
  have qB1: "quiet ?stB st1" unfolding st1 by (rule quiet_save)
  have fB: "isSessionCompleted (progress ?stB) QUALIFICATION_TYPE x"
    using flagged unfolding st1 by (simp add: progress_save lookups_lastUpdate)
  have fA: "\<not> isSessionCompleted (progress ?stA) QUALIFICATION_TYPE x"
    using fresh
    by (simp add: progress_save progress_tracker lookups_lastUpdate updateStats_def
          isSessionCompleted_def)
  from process_sessions_flags[OF nA refl fB] fA
  have "session_settled lc site (progress ?stB) x" by simp
  then show ?thesis using quiet_session_settled[OF qB1] by simp
qed

text \<open>
  A run keeps its trace, and it adds a completed unit to the counter exactly when it
  writes an artifact file: a unit is extracted only while the ledger does not have it as
  completed. A session is skipped only when the ledger has its flag, so when every flag of
  the ledger belongs to a session that was visited, every session of the list is visited.
\<close>

lemma carries_on_refl: "carries_on st st"
  by (simp add: carries_on_def)

lemma carries_on_trans: "carries_on a b \<Longrightarrow> carries_on b c \<Longrightarrow> carries_on a c"
  by (auto simp: carries_on_def)

lemma carries_on_adapter: "carries_on st (adapter a st)"
  by (auto simp: carries_on_def adapter_def)

lemma carries_on_save: "carries_on st (save st)"
  by (simp add: carries_on_def save_def Let_def)

lemma carries_on_updateStats: "carries_on st (save (tracker (updateStats a b c) st))"
  by (simp add: carries_on_def save_def tracker_def updateStats_def Let_def)

lemma carries_on_markSession:
  "carries_on st (save (tracker (markSessionAsCompleted q s) st))"
  by (simp add: carries_on_def save_def tracker_def markSessionAsCompleted_def Let_def)

lemma carries_on_markAsFailed:
  "carries_on st (save (tracker (markAsFailed q s subj u m) st))"
  by (simp add: carries_on_def save_def tracker_def markAsFailed_def Let_def
        split: prod.splits bool.splits)

lemma completedUnits_markAsCompleted:
  "\<not> isCompleted p q s subj u \<Longrightarrow>
     completedUnits (stats (markAsCompleted q s subj u p)) = completedUnits (stats p) + 1"
  by (auto simp: markAsCompleted_def isCompleted_def tree_add_def tree_has_def Let_def
        split: option.splits)

lemma processUnit_carries_on:
  assumes "processUnit site q s subj u st = (r, st')"
    and "\<not> isCompleted (progress st) q s subj u"
  shows "carries_on st st'"
proof (cases "unitPage site s subj u")
  case (SelectUnitThrows e)
  then have "st' = adapter (SelectUnit u) st" using assms(1) by (simp add: processUnit_def Let_def)
  then show ?thesis by (simp add: carries_on_adapter)
next
  case NoTabsSection
  then have "st' = save (tracker (markAsFailed q s subj u (js ''No tabs section found''))
                      (adapter (SelectUnit u) st))"
    using assms(1) by (simp add: processUnit_def Let_def)
  then show ?thesis using carries_on_adapter carries_on_markAsFailed
    by (blast intro: carries_on_trans)
next
  case (ExtractThrows e)
  then have "st' = adapter ExtractAllScoresData (adapter SelectAllScoresTab
                      (adapter (SelectUnit u) st))"
    using assms(1) by (simp add: processUnit_def Let_def)
  then show ?thesis using carries_on_adapter by (blast intro: carries_on_trans)
next
  case (Extracted rawData)
  let ?st2 = "adapter ExtractAllScoresData (adapter SelectAllScoresTab
                (adapter (SelectUnit u) st))"
  have c2: "carries_on st ?st2" using carries_on_adapter by (blast intro: carries_on_trans)
  show ?thesis
  proof (cases "length (processData rawData) = 0")
    case True
    then have "st' = save (tracker (markAsFailed q s subj u (js ''No data extracted'')) ?st2)"
      using assms(1) Extracted by (simp add: processUnit_def Let_def)
    then show ?thesis using c2 carries_on_markAsFailed by (blast intro: carries_on_trans)
  next
    case False
    then have st': "st' = save (tracker (markAsCompleted q s subj u)
                             (saveData (processData rawData) q s subj u ?st2))"
      using assms(1) Extracted by (simp add: processUnit_def Let_def)
    have "completedUnits (stats (markAsCompleted q s subj u (progress st))) =
            completedUnits (stats (progress st)) + 1"
      using assms(2) by (rule completedUnits_markAsCompleted)
    then show ?thesis unfolding st'
      by (auto simp: carries_on_def save_def tracker_def saveData_def adapter_def Let_def)
  qed
qed

lemma process_units_carries_on:
  "process_units site q s subj units k st = (k', st') \<Longrightarrow> carries_on st st'"
proof (induction units arbitrary: k st)
  case Nil
  then show ?case by (simp add: carries_on_refl)
next
  case (Cons u units)
  show ?case
  proof (cases "isCompleted (progress st) q s subj u \<or> hasFailed (progress st) q s subj u")
    case True
    then have "\<exists>k1. process_units site q s subj units k1 st = (k', st')"
      using Cons.prems by (auto split: if_splits)
    then show ?thesis using Cons.IH by blast
  next
    case False
    obtain r st1 where pu: "processUnit site q s subj u st = (r, st1)"
      by (cases "processUnit site q s subj u st")
    from False have "\<not> isCompleted (progress st) q s subj u" by simp
    with pu have c1: "carries_on st st1" by (rule processUnit_carries_on)
    show ?thesis
    proof (cases r)
      case (Inr b)
      then have "\<exists>k1. process_units site q s subj units k1 st1 = (k', st')"
        using Cons.prems False pu by (auto split: if_splits)
      then show ?thesis using Cons.IH c1 by (blast intro: carries_on_trans)
    next
      case (Inl m)
      let ?st2 = "save (tracker (markAsFailed q s subj u m) st1)"
      have "process_units site q s subj units (k + 1) ?st2 = (k', st')"
        using Cons.prems False pu Inl by (auto split: if_splits)
      from Cons.IH[OF this] show ?thesis using c1 carries_on_markAsFailed
        by (blast intro: carries_on_trans)
    qed
  qed
qed

lemma processSubject_carries_on:
  assumes a: "processSubject site q s subj st = (r, st')"
  shows "carries_on st st'"
proof (cases "unitLinks site s subj")
  case (Inl e)
  then have "st' = adapter (SelectSubject subj) st"
    using a by (auto simp: processSubject_def Let_def)
  then show ?thesis by (simp add: carries_on_adapter)
next
  case (Inr units)
  let ?st1 = "adapter (SelectSubject subj) st"
  let ?st2 = "save (tracker (updateStats (totalSessions (getSummary (progress ?st1)))
                (totalSubjects (getSummary (progress ?st1)))
                (totalUnits (getSummary (progress ?st1)) + length units)) ?st1)"
  have c2: "carries_on st ?st2"
    using carries_on_adapter carries_on_updateStats by (blast intro: carries_on_trans)
  show ?thesis
  proof (cases "units = []")
    case True
    then have "st' = ?st2" using a Inr by (simp add: processSubject_def Let_def)
    then show ?thesis using c2 by simp
  next
    case False
    then obtain k where "process_units site q s subj units 0 ?st2 = (k, st')"
      using a Inr by (auto simp: processSubject_def Let_def split: prod.splits)
    from process_units_carries_on[OF this] show ?thesis using c2 by (blast intro: carries_on_trans)
  qed
qed

lemma process_subjects_carries_on:
  "process_subjects site s subjs a b st = (r, st') \<Longrightarrow> carries_on st st'"
proof (induction subjs arbitrary: a b st)
  case Nil
  then show ?case by (simp add: carries_on_refl)
next
  case (Cons subj subjs)
  obtain r1 st1 where ps: "processSubject site QUALIFICATION_TYPE s subj st = (r1, st1)"
    by (cases "processSubject site QUALIFICATION_TYPE s subj st")
  then have "\<exists>a1 b1. process_subjects site s subjs a1 b1 st1 = (r, st')"
    using Cons.prems by (auto split: sum.splits prod.splits)
  then obtain a1 b1 where "process_subjects site s subjs a1 b1 st1 = (r, st')" by blast
  from Cons.IH[OF this] processSubject_carries_on[OF ps] show ?case
    by (blast intro: carries_on_trans)
qed

lemma process_sessions_visits:
  assumes "\<forall>x. isSessionCompleted (progress st) QUALIFICATION_TYPE x \<longrightarrow>
             NavigateToSession x \<in> set (trace st)"
  shows "carries_on st (process_sessions lc site n ss k st) \<and>
         (\<forall>x\<in>set ss. NavigateToSession x \<in> set (trace (process_sessions lc site n ss k st)))"
  using assms
proof (induction ss arbitrary: k st)
  case Nil
  then show ?case by (simp add: carries_on_refl)
next
  case (Cons s ss)
  have step: "\<exists>k1 st1. process_sessions lc site n (s # ss) k st =
                          process_sessions lc site n ss k1 st1 \<and>
                carries_on st st1 \<and>
                NavigateToSession s \<in> set (trace st1) \<and>
                (\<forall>x. isSessionCompleted (progress st1) QUALIFICATION_TYPE x \<longrightarrow>
                   NavigateToSession x \<in> set (trace st1))"
  proof (cases "isSessionCompleted (progress st) QUALIFICATION_TYPE s")
    case True
    then have "process_sessions lc site n (s # ss) k st = process_sessions lc site n ss k st"
      by simp
    then show ?thesis using True Cons.prems carries_on_refl by blast
  next
    case flag: False
    let ?st1 = "adapter (NavigateToSession s) st"
    have c1: "carries_on st ?st1" by (rule carries_on_adapter)
    have v1: "NavigateToSession s \<in> set (trace ?st1)" by (simp add: adapter_def)
    have i1: "\<forall>x. isSessionCompleted (progress ?st1) QUALIFICATION_TYPE x \<longrightarrow>
                NavigateToSession x \<in> set (trace ?st1)"
      using Cons.prems by (simp add: adapter_def)
    show ?thesis
    proof (cases "subjectLinks site s")
      case (Inl e)
      then have "process_sessions lc site n (s # ss) k st = process_sessions lc site n ss k ?st1"
        using flag by (simp add: Let_def)
      then show ?thesis using c1 v1 i1 by blast
    next
      case (Inr subjects)
      let ?fs = "filter (shouldProcessSubject lc) subjects"
      let ?st2 = "save (tracker (updateStats n (k + length ?fs) 0) ?st1)"
      have c2: "carries_on ?st1 ?st2" by (rule carries_on_updateStats)
      have f2: "completedSessions (progress ?st2) = completedSessions (progress st)"
        by (simp add: progress_save progress_tracker progress_adapter updateStats_def)
      obtain a b st3 where psub: "process_subjects site s ?fs 0 0 ?st2 = ((a, b), st3)"
        by (cases "process_subjects site s ?fs 0 0 ?st2") auto
      have c3: "carries_on ?st2 st3" using psub by (rule process_subjects_carries_on)
      have f3: "completedSessions (progress st3) = completedSessions (progress st)"
        using process_subjects_flags[OF psub] f2 by simp
      let ?st4 = "if a > 0 \<and> b = a
                  then save (tracker (markSessionAsCompleted QUALIFICATION_TYPE s) st3) else st3"
      have run: "process_sessions lc site n (s # ss) k st =
                   process_sessions lc site n ss (k + length ?fs) ?st4"
        using flag Inr psub by (simp add: Let_def)
      have c4: "carries_on st3 ?st4" by (simp add: carries_on_refl carries_on_markSession)
      have c: "carries_on st ?st4" using c1 c2 c3 c4 by (blast intro: carries_on_trans)
      then have sub: "set (trace st) \<subseteq> set (trace ?st4)" by (simp add: carries_on_def)
      have "carries_on ?st1 ?st4" using c2 c3 c4 by (blast intro: carries_on_trans)
      then have v4: "NavigateToSession s \<in> set (trace ?st4)"
        using v1 by (auto simp: carries_on_def)
      have "\<forall>x. isSessionCompleted (progress ?st4) QUALIFICATION_TYPE x \<longrightarrow>
                 isSessionCompleted (progress st) QUALIFICATION_TYPE x \<or> x = s"
        using flags_cong[OF f3]
        by (auto simp: progress_save progress_tracker lookups_lastUpdate flag_after_mark)
      then have i4: "\<forall>x. isSessionCompleted (progress ?st4) QUALIFICATION_TYPE x \<longrightarrow>
                 NavigateToSession x \<in> set (trace ?st4)"
        using Cons.prems sub v4 by blast
      from run c v4 i4 show ?thesis by blast
    qed
  qed
  then obtain k1 st1 where run: "process_sessions lc site n (s # ss) k st =
                                   process_sessions lc site n ss k1 st1"
    and c1: "carries_on st st1"
    and v1: "NavigateToSession s \<in> set (trace st1)"
    and i1: "\<forall>x. isSessionCompleted (progress st1) QUALIFICATION_TYPE x \<longrightarrow>
                   NavigateToSession x \<in> set (trace st1)" by blast
  from Cons.IH[OF i1, of k1]
  have c': "carries_on st1 (process_sessions lc site n ss k1 st1)"
    and v': "\<forall>x\<in>set ss. NavigateToSession x \<in> set (trace (process_sessions lc site n ss k1 st1))"
    by simp_all
  have "NavigateToSession s \<in> set (trace (process_sessions lc site n ss k1 st1))"
    using c' v1 by (auto simp: carries_on_def)
  moreover have "carries_on st (process_sessions lc site n ss k1 st1)"
    using c1 c' by (rule carries_on_trans)
  ultimately show ?case unfolding run using v' by simp
qed

lemma scrapeSeries_fresh:
  assumes l: "sessionLinks site = Inr l" and v: "filter valid_session l \<noteq> []"
    and st0: "initialize \<lparr>progress = ProgressTracker, disk = ledger, clock = now,
                           artifacts = files, trace = []\<rparr> =
                \<lparr>progress = ProgressTracker\<lparr>lastUpdate := Some now\<rparr>,
                 disk = Doc (Full (ProgressTracker\<lparr>lastUpdate := Some now\<rparr>)),
                 clock = now + 1, artifacts = files, trace = []\<rparr>"
  shows "\<exists>st. scrapeSeries lc site ledger now files = Inr st \<and>
           disk st = Doc (Full (progress st)) \<and>
           totalSessions (stats (progress st)) = length (filter valid_session l) \<and>
           (\<forall>s\<in>set (filter valid_session l). NavigateToSession s \<in> set (trace st)) \<and>
           completedUnits (stats (progress st)) + length files = length (artifacts st)"
proof -
  let ?valid = "filter valid_session l"
  let ?n = "length ?valid"
  let ?st0 = "\<lparr>progress = ProgressTracker\<lparr>lastUpdate := Some now\<rparr>,
               disk = Doc (Full (ProgressTracker\<lparr>lastUpdate := Some now\<rparr>)),
               clock = now + 1, artifacts = files, trace = []\<rparr>"
  let ?stA = "save (tracker (updateStats ?n 0 0) ?st0)"
  let ?stB = "process_sessions lc site ?n ?valid 0 ?stA"
  let ?fin = "save ?stB"
  have run: "scrapeSeries lc site ledger now files = Inr ?fin"
    using l v by (simp add: scrapeSeries_def Let_def st0)
  have nA: "totalSessions (stats (progress ?stA)) = ?n"
    by (simp add: save_def tracker_def updateStats_def Let_def)
  from process_sessions_grows[OF nA refl, of lc site ?valid 0]
  have "grows (progress ?stA) (progress ?stB)" by simp
  then have n: "totalSessions (stats (progress ?fin)) = ?n"
    using nA by (simp add: grows_def progress_save)
  have iA: "\<forall>x. isSessionCompleted (progress ?stA) QUALIFICATION_TYPE x \<longrightarrow>
              NavigateToSession x \<in> set (trace ?stA)"
    by (simp add: save_def tracker_def updateStats_def Let_def isSessionCompleted_def
          ProgressTracker_def)
  from process_sessions_visits[OF iA, of lc site ?n ?valid 0]
  have cB: "carries_on ?stA ?stB"
    and vB: "\<forall>x\<in>set ?valid. NavigateToSession x \<in> set (trace ?stB)" by simp_all
  have c0: "carries_on ?st0 ?stA" by (rule carries_on_updateStats)
  have cS: "carries_on ?stB ?fin" by (rule carries_on_save)
  have "carries_on ?st0 ?fin" by (rule carries_on_trans[OF carries_on_trans[OF c0 cB] cS])
  then have count: "completedUnits (stats (progress ?fin)) + length files = length (artifacts ?fin)"
    by (simp add: carries_on_def ProgressTracker_def)
  have visits: "\<forall>x\<in>set ?valid. NavigateToSession x \<in> set (trace ?fin)"
    using vB by (simp add: save_def Let_def)
  have "disk ?fin = Doc (Full (progress ?fin))" by (simp add: save_def Let_def)
  with run n visits count show ?thesis by blast
qed

section \<open>Rounding to double precision\<close>

text \<open>
  \<open>binary_exponent\<close> is the exponent of the binade of its argument. Rounding to the nearest
  double never goes below a positive integer under \<open>2 ^ 53\<close> that the argument reaches,
  since such an integer is itself a double.
\<close>


lemma bitlen_lower: "0 < a \<Longrightarrow> (2::rat) powi (bitlen a - 1) \<le> of_int a"
proof -
  assume a: "0 < a"
  from bitlen_bounds[OF a] have "(2::int) ^ nat (bitlen a - 1) \<le> a" by simp
  then have "of_int ((2::int) ^ nat (bitlen a - 1)) \<le> (of_int a :: rat)"
    by (rule of_int_le_iff[THEN iffD2])
  moreover have "0 \<le> bitlen a - 1" using a by (simp add: bitlen_def floorlog_def)
  ultimately show ?thesis by (simp add: power_int_def)
qed

lemma bitlen_upper: "0 < b \<Longrightarrow> of_int b \<le> (2::rat) powi (bitlen b)"
proof -
  assume b: "0 < b"
  from bitlen_bounds[OF b] have "b < (2::int) ^ nat (bitlen b)" by simp
  then have "(of_int b :: rat) \<le> of_int ((2::int) ^ nat (bitlen b))"
    by (simp only: of_int_le_iff)
  moreover have "0 \<le> bitlen b" by (simp add: bitlen_def)
  ultimately show ?thesis by (simp add: power_int_def)
qed

lemma binary_exponent_le: "0 < x \<Longrightarrow> 2 powi (binary_exponent x) \<le> x"
proof -
  assume x: "0 < x"
  obtain a b where ab: "quotient_of x = (a, b)" by (cases "quotient_of x")
  have b: "0 < b" using ab by (rule quotient_of_denom_pos)
  have xab: "x = of_int a / of_int b" using ab by (rule quotient_of_div)
  have a: "0 < a" using x b xab by (simp add: zero_less_divide_iff)
  let ?d = "bitlen a - bitlen b"
  show ?thesis
  proof (cases "2 powi ?d \<le> x")
    case True
    then show ?thesis using ab by (simp add: binary_exponent_def)
  next
    case False
    have "(2::rat) powi (?d - 1) = 2 powi (bitlen a - 1) / 2 powi (bitlen b)"
      by (simp add: power_int_diff)
    also have "\<dots> \<le> of_int a / 2 powi (bitlen b)"
      using bitlen_lower[OF a] by (simp add: divide_right_mono)
    also have "\<dots> \<le> of_int a / of_int b"
      using bitlen_upper[OF b] a b by (simp add: divide_left_mono)
    finally have "(2::rat) powi (?d - 1) \<le> x" using xab by simp
    then show ?thesis using ab False by (simp add: binary_exponent_def)
  qed
qed

lemma bitlen_less: "0 < a \<Longrightarrow> of_int a < (2::rat) powi (bitlen a)"
proof -
  assume a: "0 < a"
  from bitlen_bounds[OF a] have "a < (2::int) ^ nat (bitlen a)" by simp
  then have "(of_int a :: rat) < of_int ((2::int) ^ nat (bitlen a))"
    by (simp only: of_int_less_iff)
  moreover have "0 \<le> bitlen a" by (simp add: bitlen_def)
  ultimately show ?thesis by (simp add: power_int_def)
qed

lemma binary_exponent_gt: "0 < x \<Longrightarrow> x < 2 powi (binary_exponent x + 1)"
proof -
  assume x: "0 < x"
  obtain a b where ab: "quotient_of x = (a, b)" by (cases "quotient_of x")
  have b: "0 < b" using ab by (rule quotient_of_denom_pos)
  have xab: "x = of_int a / of_int b" using ab by (rule quotient_of_div)
  have a: "0 < a" using x b xab by (simp add: zero_less_divide_iff)
  let ?d = "bitlen a - bitlen b"
  show ?thesis
  proof (cases "2 powi ?d \<le> x")
    case True
    have "of_int a / of_int b < (2::rat) powi (bitlen a) / of_int b"
      using bitlen_less[OF a] b by (simp add: divide_strict_right_mono)
    also have "\<dots> \<le> 2 powi (bitlen a) / 2 powi (bitlen b - 1)"
      using bitlen_lower[OF b] b by (simp add: divide_left_mono)
    also have "\<dots> = 2 powi (?d + 1)"
      by (simp add: power_int_diff power_int_add)
    finally have "x < 2 powi (?d + 1)" using xab by simp
    then show ?thesis using ab True by (simp add: binary_exponent_def)
  next
    case False
    then show ?thesis using ab by (simp add: binary_exponent_def)
  qed
qed

lemma round_half_even_ge: "of_int N \<le> y \<Longrightarrow> N \<le> round_half_even y"
proof -
  assume "of_int N \<le> y"
  then have "N \<le> \<lfloor>y\<rfloor>" by (simp add: le_floor_iff)
  then show ?thesis by (simp add: round_half_even_def Let_def)
qed

lemma to_double_ge:
  assumes n: "1 \<le> n" "n < 2 ^ 53" and x: "of_nat n \<le> x"
  shows "of_nat n \<le> to_double x"
proof -
  have "(0::rat) < of_nat n" using n(1) by simp
  then have xpos: "0 < x" using x by linarith
  let ?e = "binary_exponent x"
  let ?u = "(2::rat) powi (?e - 52)"
  have upos: "0 < ?u" by simp
  have td: "to_double x = of_int (round_half_even (x / ?u)) * ?u"
    using xpos by (simp add: to_double_def Let_def)
  show ?thesis
  proof (cases "?e \<le> 52")
    case True
    let ?k = "nat (52 - ?e)"
    have u: "?u = 1 / 2 ^ ?k"
      using True by (simp add: power_int_def field_simps)
    have "(of_nat n :: rat) * 2 ^ ?k \<le> x / ?u"
      using x by (simp add: u)
    then have "of_int (int n * 2 ^ ?k) \<le> x / ?u" by simp
    then have "int n * 2 ^ ?k \<le> round_half_even (x / ?u)" by (rule round_half_even_ge)
    then have "(of_int (int n * 2 ^ ?k) :: rat) \<le> of_int (round_half_even (x / ?u))"
      by (simp only: of_int_le_iff)
    then have "(of_nat n :: rat) * 2 ^ ?k \<le> of_int (round_half_even (x / ?u))" by simp
    then have "(of_nat n :: rat) \<le> of_int (round_half_even (x / ?u)) / 2 ^ ?k"
      by (simp add: pos_le_divide_eq)
    then show ?thesis unfolding td u by simp
  next
    case False
    then have e: "53 \<le> ?e" by simp
    have "(2::rat) powi ?e \<le> x" using xpos by (rule binary_exponent_le)
    then have "(2::rat) powi ?e / ?u \<le> x / ?u" using upos by (simp add: divide_right_mono)
    moreover have "(2::rat) powi ?e / ?u = of_int (2 ^ 52)"
      by (simp add: power_int_diff)
    ultimately have "of_int (2 ^ 52) \<le> x / ?u" by simp
    then have "2 ^ 52 \<le> round_half_even (x / ?u)" by (rule round_half_even_ge)
    then have "(of_int (2 ^ 52) :: rat) \<le> of_int (round_half_even (x / ?u))"
      by (simp only: of_int_le_iff)
    then have "of_int (2 ^ 52) * ?u \<le> of_int (round_half_even (x / ?u)) * ?u"
      using upos by (simp add: mult_right_mono)
    moreover have "of_int (2 ^ 52) * ?u = (2::rat) powi ?e"
      by (simp add: power_int_diff)
    moreover have "(2::rat) powi 53 \<le> 2 powi ?e"
      by (rule power_int_increasing) (use e in simp_all)
    moreover have "(of_nat n :: rat) \<le> 2 powi 53"
    proof -
      have "(of_nat n :: rat) \<le> of_nat (2 ^ 53)" using n(2) by (simp only: of_nat_le_iff)
      then show ?thesis by simp
    qed
    ultimately show ?thesis using td by linarith
  qed
qed

lemma percent_ge:
  assumes "0 < t" "1 \<le> k" "100 * k < 2 ^ 53" "k * t \<le> c"
  shows "100 * int k \<le> percent c t"
proof -
  have k53: "k < 2 ^ 53" using assms(3) by simp
  have "(of_nat (k * t) :: rat) \<le> of_nat c" using assms(4) by (simp only: of_nat_le_iff)
  then have "(of_nat k :: rat) \<le> of_nat c / of_nat t"
    using assms(1) by (simp add: pos_le_divide_eq)
  then have "(of_nat k :: rat) \<le> to_double (of_nat c / of_nat t)"
    using assms(2) k53 by (intro to_double_ge)
  then have "(of_nat (100 * k) :: rat) \<le> to_double (of_nat c / of_nat t) * 100" by simp
  then have "(of_nat (100 * k) :: rat) \<le> to_double (to_double (of_nat c / of_nat t) * 100)"
    using assms(2,3) by (intro to_double_ge) simp_all
  then have "(of_int (100 * int k) :: rat) \<le> to_double (to_double (of_nat c / of_nat t) * 100) + 1 / 2"
    by simp
  then show ?thesis unfolding percent_def Math_round_def by (simp only: le_floor_iff)
qed

text \<open>
  Rounding to the nearest double moves a positive number by at most the fraction
  \<open>2 ^ -53\<close> of it. The two roundings of \<open>getSummary\<close> therefore leave the percentage
  within \<open>1 / (2 * totalUnits)\<close> of its exact value while \<open>400 * completedUnits\<close> is
  below \<open>2 ^ 53\<close>, which is less than the distance of the exact value to a half-integer,
  unless the exact value is a half-integer itself.
\<close>

lemma round_half_even_err: "\<bar>of_int (round_half_even y) - y\<bar> \<le> 1 / 2"
proof -
  have a: "of_int \<lfloor>y\<rfloor> \<le> y" by simp
  have b: "y < of_int \<lfloor>y\<rfloor> + 1" by linarith
  show ?thesis using a b by (auto simp: round_half_even_def Let_def abs_le_iff)
qed

lemma to_double_err:
  assumes x: "0 < x"
  shows "\<bar>to_double x - x\<bar> \<le> x / 2 ^ 53"
proof -
  let ?e = "binary_exponent x"
  let ?u = "(2::rat) powi (?e - 52)"
  let ?r = "round_half_even (x / ?u)"
  have upos: "0 < ?u" by simp
  have td: "to_double x = of_int ?r * ?u"
    using x by (simp add: to_double_def Let_def)
  have "\<bar>of_int ?r - x / ?u\<bar> \<le> 1 / 2" by (rule round_half_even_err)
  then have "\<bar>of_int ?r - x / ?u\<bar> * ?u \<le> 1 / 2 * ?u"
    using upos by (simp add: mult_right_mono)
  moreover have "\<bar>of_int ?r - x / ?u\<bar> * ?u = \<bar>of_int ?r * ?u - x\<bar>"
  proof -
    have "\<bar>of_int ?r - x / ?u\<bar> * ?u = \<bar>(of_int ?r - x / ?u) * ?u\<bar>"
      using upos by (simp add: abs_mult)
    also have "(of_int ?r - x / ?u) * ?u = of_int ?r * ?u - x"
      using upos by (simp add: left_diff_distrib)
    finally show ?thesis .
  qed
  moreover have "1 / 2 * ?u = 2 powi ?e / 2 ^ 53"
    by (simp add: power_int_diff)
  moreover have "(2::rat) powi ?e / 2 ^ 53 \<le> x / 2 ^ 53"
    using binary_exponent_le[OF x] by (simp add: divide_right_mono)
  ultimately show ?thesis unfolding td by linarith
qed

lemma percent_near:
  assumes t: "0 < t" and c: "400 * c < 2 ^ 53"
  shows "\<bar>to_double (to_double (of_nat c / of_nat t) * 100) - 100 * of_nat c / of_nat t\<bar>
           < 1 / (2 * of_nat t)"
proof (cases "c = 0")
  case True
  then show ?thesis using t by (simp add: to_double_def)
next
  case False
  let ?q = "of_nat c / of_nat t :: rat"
  let ?y1 = "to_double ?q"
  let ?y = "to_double (?y1 * 100)"
  let ?u = "1 / 2 ^ 53 :: rat"
  have tpos: "(0::rat) < of_nat t" using t by simp
  have cpos: "(0::rat) < of_nat c" using False by simp
  have q: "0 < ?q" using tpos cpos by simp
  have e1: "\<bar>?y1 - ?q\<bar> \<le> ?q * ?u" using to_double_err[OF q] by simp
  have "?q * ?u < ?q" using q by simp
  with e1 have y1: "0 < ?y1" by linarith
  then have "0 < ?y1 * 100" by simp
  from to_double_err[OF this] have e2: "\<bar>?y - ?y1 * 100\<bar> \<le> 100 * ?y1 * ?u" by simp
  have "?y1 \<le> ?q * (1 + ?u)" using e1 by (simp add: algebra_simps)
  then have "100 * ?y1 * ?u \<le> 100 * (?q * (1 + ?u)) * ?u"
    by (simp add: mult_right_mono)
  with e1 e2 have "\<bar>?y - 100 * ?q\<bar> \<le> 100 * (?q * (1 + ?u)) * ?u + 100 * (?q * ?u)"
    by linarith
  also have "\<dots> = (of_nat c * (100 * ?u * (2 + ?u))) / of_nat t"
    by (simp add: algebra_simps)
  also have "\<dots> < (1 / 2) / of_nat t"
  proof -
    have "400 * c + 1 \<le> 2 ^ 53" using c by simp
    then have "(of_nat (400 * c + 1) :: rat) \<le> of_nat (2 ^ 53)"
      by (simp only: of_nat_le_iff)
    then have "400 * (of_nat c :: rat) + 1 \<le> 2 ^ 53" by simp
    then have "of_nat c * (100 * ?u * (2 + ?u)) < 1 / 2" by simp
    then show ?thesis using tpos by (rule divide_strict_right_mono)
  qed
  finally show ?thesis by simp
qed

lemma floor_off_grid:
  fixes x y d :: rat
  assumes "\<bar>y - x\<bar> < d" "of_int n + d \<le> x + 1 / 2" "x + 1 / 2 + d \<le> of_int n + 1"
  shows "\<lfloor>y + 1 / 2\<rfloor> = n"
proof -
  from assms(1) have "y - x < d" "- (y - x) < d" by (simp_all only: abs_less_iff)
  with assms(2,3) have "of_int n \<le> y + 1 / 2" "y + 1 / 2 < of_int n + 1" by linarith+
  then show ?thesis by (rule floor_unique)
qed

lemma floor_on_grid:
  fixes x y d :: rat
  assumes "\<bar>y - x\<bar> < d" "d \<le> 1 / 2" "x + 1 / 2 = of_int n"
  shows "\<lfloor>y + 1 / 2\<rfloor> = n \<or> \<lfloor>y + 1 / 2\<rfloor> = n - 1"
proof -
  from assms(1) have b: "y - x < d" "- (y - x) < d" by (simp_all only: abs_less_iff)
  show ?thesis
  proof (cases "y + 1 / 2 < of_int n")
    case True
    have "(of_int n :: rat) - 1 \<le> y + 1 / 2" using b assms(2,3) by linarith
    then have "of_int (n - 1) \<le> y + 1 / 2" by simp
    moreover have "y + 1 / 2 < of_int (n - 1) + 1" using True by simp
    ultimately have "\<lfloor>y + 1 / 2\<rfloor> = n - 1" by (rule floor_unique)
    then show ?thesis by simp
  next
    case False
    then have "of_int n \<le> y + 1 / 2" by simp
    moreover have "y + 1 / 2 < of_int n + 1" using b assms(2,3) by linarith
    ultimately have "\<lfloor>y + 1 / 2\<rfloor> = n" by (rule floor_unique)
    then show ?thesis by simp
  qed
qed

lemma grid_gap:
  fixes w :: rat
  assumes d: "0 < d" and M: "of_int M = of_int d * w" and lt: "of_int a < w"
  shows "of_int a + 1 / of_int d \<le> w"
proof -
  have dpos: "(0::rat) < of_int d" using d by simp
  then have dn: "(of_int d :: rat) \<noteq> 0" by simp
  have "of_int d * of_int a < of_int d * w"
    using dpos lt by (rule mult_strict_left_mono[rotated])
  then have "(of_int (d * a) :: rat) < of_int M" unfolding M by simp
  then have "d * a < M" by (simp only: of_int_less_iff)
  then have "d * a + 1 \<le> M" by simp
  then have "(of_int (d * a + 1) :: rat) \<le> of_int M" by (simp only: of_int_le_iff)
  then have "of_int d * of_int a + 1 \<le> of_int d * w" unfolding M by simp
  then have "(of_int d * of_int a + 1) / of_int d \<le> (of_int d * w) / of_int d"
    using dpos by (simp only: divide_right_mono less_imp_le)
  moreover have "(of_int d * of_int a + 1) / of_int d = (of_int a :: rat) + 1 / of_int d"
  proof -
    have "(of_int d * of_int a + 1) / (of_int d :: rat) =
            of_int d * of_int a / of_int d + 1 / of_int d"
      by (rule add_divide_distrib)
    also have "of_int d * of_int a / of_int d = (of_int a :: rat)"
      using dn by (rule nonzero_mult_div_cancel_left)
    finally show ?thesis .
  qed
  moreover have "(of_int d * w) / of_int d = w" using dn by simp
  ultimately show ?thesis by simp
qed

lemma grid_gap_above:
  fixes w :: rat
  assumes d: "0 < d" and M: "of_int M = of_int d * w" and lt: "w < of_int a"
  shows "w + 1 / of_int d \<le> of_int a"
proof -
  have "of_int (- M) = of_int d * (- w)" using M by simp
  moreover have "of_int (- a) < - w" using lt by simp
  ultimately have "of_int (- a) + 1 / of_int d \<le> - w" using d by (intro grid_gap)
  then show ?thesis by simp
qed

lemma percent_exact:
  assumes t: "0 < t" and c: "400 * c < 2 ^ 53"
  shows "percent c t = exact_percent c t \<or>
         percent c t = exact_percent c t - 1 \<and> frac (100 * of_nat c / of_nat t :: rat) = 1 / 2"
proof -
  define x :: rat where "x = 100 * of_nat c / of_nat t"
  define y where "y = to_double (to_double (of_nat c / of_nat t) * 100)"
  define n where "n = \<lfloor>x + 1 / 2\<rfloor>"
  define d where "d = 2 * int t"
  have tpos: "(0::rat) < of_nat t" using t by simp
  have dpos: "0 < d" using t by (simp add: d_def)
  have d': "(of_int d :: rat) = 2 * of_nat t" by (simp add: d_def)
  have near: "\<bar>y - x\<bar> < 1 / of_int d"
    unfolding x_def y_def d' using t c by (rule percent_near)
  have p: "percent c t = \<lfloor>y + 1 / 2\<rfloor>" by (simp add: percent_def Math_round_def y_def)
  have s: "exact_percent c t = n" by (simp add: exact_percent_def round_def n_def x_def)
  have lo: "of_int n \<le> x + 1 / 2" unfolding n_def by (rule of_int_floor_le)
  have hi: "x + 1 / 2 < of_int (n + 1)" unfolding n_def by (simp only: floor_correct)
  have M: "(of_int (int (200 * c + t)) :: rat) = of_int d * (x + 1 / 2)"
  proof -
    have "of_int d * (x + 1 / 2) = 2 * of_nat t * x + of_nat t"
      unfolding d' by (simp add: distrib_left)
    also have "2 * of_nat t * x = 200 * of_nat c"
      unfolding x_def using tpos by simp
    finally show ?thesis by simp
  qed
  show ?thesis
  proof (cases "x + 1 / 2 = of_int n")
    case True
    have "(1::rat) \<le> of_nat t" using t by simp
    then have "(2::rat) \<le> of_int d" unfolding d' by simp
    then have "1 / of_int d \<le> (1::rat) / 2" by (rule divide_left_mono) (use dpos in simp_all)
    with near have "\<lfloor>y + 1 / 2\<rfloor> = n \<or> \<lfloor>y + 1 / 2\<rfloor> = n - 1"
      using True by (rule floor_on_grid)
    moreover have "frac x = 1 / 2"
    proof -
      have "x - 1 / 2 = of_int (n - 1)" using True by simp
      then have "x - 1 / 2 \<in> \<int>" by (simp only: Ints_of_int)
      then have "x - 1 / 2 \<in> \<int> \<and> (0::rat) \<le> 1 / 2 \<and> (1::rat) / 2 < 1" by simp
      then show ?thesis by (simp only: frac_unique_iff)
    qed
    ultimately show ?thesis unfolding p s x_def by blast
  next
    case False
    then have "of_int n < x + 1 / 2" using lo by simp
    with dpos M have l1: "of_int n + 1 / of_int d \<le> x + 1 / 2" by (rule grid_gap)
    from dpos M hi have "x + 1 / 2 + 1 / of_int d \<le> of_int (n + 1)" by (rule grid_gap_above)
    then have l2: "x + 1 / 2 + 1 / of_int d \<le> of_int n + 1" by simp
    from near l1 l2 have "\<lfloor>y + 1 / 2\<rfloor> = n" by (rule floor_off_grid)
    then show ?thesis unfolding p s by simp
  qed
qed

lemma to_double_nonneg: "0 \<le> x \<Longrightarrow> 0 \<le> to_double x"
proof -
  assume x: "0 \<le> x"
  let ?u = "(2::rat) powi (binary_exponent x - 52)"
  have "(of_int 0 :: rat) \<le> x / ?u" using x by simp
  then have "0 \<le> round_half_even (x / ?u)" by (rule round_half_even_ge)
  then have "(0::rat) \<le> of_int (round_half_even (x / ?u)) * ?u" by simp
  then show ?thesis by (simp add: to_double_def Let_def)
qed

lemma percent_bounds:
  assumes t: "0 < t" and c: "400 * c < 2 ^ 53"
  shows "0 \<le> percent c t" "percent c t < 2 ^ 53"
proof -
  let ?x = "100 * of_nat c / of_nat t :: rat"
  have tpos: "(0::rat) < of_nat t" using t by simp
  have "(1::rat) \<le> of_nat t" using t by simp
  then have "?x \<le> 100 * of_nat c" using tpos by (simp add: field_simps mult_left_mono)
  then have "?x + 1 / 2 < of_int (100 * int c + 1)" by simp
  then have "\<lfloor>?x + 1 / 2\<rfloor> < 100 * int c + 1" by (simp only: floor_less_iff)
  then have up: "exact_percent c t \<le> 100 * int c" by (simp add: exact_percent_def round_def)
  have "400 * int c < 2 ^ 53" using c by (simp only: of_nat_less_iff[symmetric, where 'a=int]) simp
  then have c': "100 * int c < 2 ^ 53" by simp
  from percent_exact[OF t c] up c' show "percent c t < 2 ^ 53" by auto
  have "0 \<le> to_double (of_nat c / of_nat t)" by (rule to_double_nonneg) simp
  then have "0 \<le> to_double (to_double (of_nat c / of_nat t) * 100)"
    by (intro to_double_nonneg) simp
  then have "of_int 0 \<le> to_double (to_double (of_nat c / of_nat t) * 100) + 1 / 2" by simp
  then show "0 \<le> percent c t" unfolding percent_def Math_round_def by (simp only: le_floor_iff)
qed

section \<open>Claims about the identifier parser\<close>

text \<open>
  Claim C7. For every file name, \<open>parseUnitCode\<close> returns not-found exactly when no prefix
  of the name is a unit code in the sense of the specification (two or three upper-case
  letters, two digits, an optional hyphen with two digits, an optional upper-case letter);
  otherwise it returns a prefix of the name that is such a unit code, and among the prefixes
  that are unit codes the longest one, as the greedy quantifiers of the pattern prescribe.
  In particular \<open>parseUnitCode("WMA02-01C_something.json")\<close> is \<open>"WMA02-01C"\<close> and
  \<open>parseUnitCode("readme.txt")\<close> is not-found.
\<close>

theorem parseUnitCode_matches_pattern:
  "(parseUnitCode name = None \<longleftrightarrow> \<not> (\<exists>p. prefix p name \<and> spec_unit_code p)) \<and>
   (\<forall>p. parseUnitCode name = Some p \<longrightarrow>
        prefix p name \<and> spec_unit_code p \<and>
        (\<forall>q. prefix q name \<and> spec_unit_code q \<longrightarrow> length q \<le> length p)) \<and>
   parseUnitCode (js ''WMA02-01C_something.json'') = Some (js ''WMA02-01C'') \<and>
   parseUnitCode (js ''readme.txt'') = None"
proof (intro conjI allI impI)
  show "parseUnitCode name = None \<longleftrightarrow> \<not> (\<exists>p. prefix p name \<and> spec_unit_code p)"
    by (rule parseUnitCode_None)
next
  fix p assume "parseUnitCode name = Some p"
  then show "prefix p name" by (simp add: parseUnitCode_Some)
next
  fix p assume "parseUnitCode name = Some p"
  then show "spec_unit_code p" by (simp add: parseUnitCode_Some)
next
  fix p q assume "parseUnitCode name = Some p" "prefix q name \<and> spec_unit_code q"
  then show "length q \<le> length p" by (blast intro: parseUnitCode_longest)
next
  show "parseUnitCode (js ''WMA02-01C_something.json'') = Some (js ''WMA02-01C'')"
    by code_simp
next
  show "parseUnitCode (js ''readme.txt'') = None"
    by code_simp
qed

text \<open>
  The theorem at the name \<open>"WPH01-01.json"\<close>: the result is \<open>"WPH01-01"\<close>, a unit code and a
  prefix of the name, and it is at least as long as the shorter unit code \<open>"WPH01"\<close>.
\<close>

theorem parseUnitCode_matches_pattern_witness:
  "parseUnitCode (js ''WPH01-01.json'') = Some (js ''WPH01-01'') \<and>
   prefix (js ''WPH01-01'') (js ''WPH01-01.json'') \<and>
   spec_unit_code (js ''WPH01-01'') \<and>
   prefix (js ''WPH01'') (js ''WPH01-01.json'') \<and> spec_unit_code (js ''WPH01'') \<and>
   length (js ''WPH01'') \<le> length (js ''WPH01-01'')"
proof -
  have r: "parseUnitCode (js ''WPH01-01.json'') = Some (js ''WPH01-01'')"
    by code_simp
  have q1: "prefix (js ''WPH01'') (js ''WPH01-01.json'')"
    by (simp add: js_def)
  have "js ''WPH01'' = js ''WPH'' @ js ''01'' @ [] @ []"
    by (simp add: js_def)
  moreover have "\<forall>x\<in>set (js ''WPH''). in_cls Upper x" "\<forall>x\<in>set (js ''01''). in_cls Digit x"
    by (simp_all add: js_def)
  moreover have "length (js ''WPH'') = 3" "length (js ''01'') = 2"
    by (simp_all add: js_def)
  ultimately have q2: "spec_unit_code (js ''WPH01'')"
    unfolding spec_unit_code_def by blast
  from parseUnitCode_matches_pattern [of "js ''WPH01-01.json''"] r q1 q2
  show ?thesis by blast
qed

text \<open>
  Claim C8, as stated: \<open>getBaseSubjectName\<close> is idempotent on every string. It is not:
  removing the token \<open>(2015)\<close> from \<open>"(20(2015)18)"\<close> joins the text around it into
  \<open>"(2018)"\<close>, which a second application removes.
\<close>

theorem getBaseSubjectName_not_idempotent:
  "getBaseSubjectName (getBaseSubjectName (js ''(20(2015)18)'')) \<noteq>
   getBaseSubjectName (js ''(20(2015)18)'')"
  by code_simp

text \<open>
  Claim C8, amended. \<open>getBaseSubjectName\<close> is a total function, and applying it to its own
  result \<open>getBaseSubjectName S\<close> changes nothing if and only if that result contains no
  parenthesized 4-digit year token.
\<close>

theorem getBaseSubjectName_idempotent_iff:
  "getBaseSubjectName (getBaseSubjectName S) = getBaseSubjectName S \<longleftrightarrow>
     \<not> has_year_token (getBaseSubjectName S)"
proof
  assume eq: "getBaseSubjectName (getBaseSubjectName S) = getBaseSubjectName S"
  show "\<not> has_year_token (getBaseSubjectName S)"
  proof
    assume "has_year_token (getBaseSubjectName S)"
    then have "length (replace_all year_rx [] (getBaseSubjectName S)) < length (getBaseSubjectName S)"
      by (rule replace_all_year_shrinks)
    moreover have "length (getBaseSubjectName (getBaseSubjectName S))
        \<le> length (replace_all year_rx [] (getBaseSubjectName S))"
      unfolding getBaseSubjectName_def[of "getBaseSubjectName S"] by (rule strip_length)
    ultimately show False using eq by simp
  qed
next
  assume "\<not> has_year_token (getBaseSubjectName S)"
  then have "replace_all year_rx [] (getBaseSubjectName S) = getBaseSubjectName S"
    by (rule replace_all_year_id)
  moreover have "getBaseSubjectName S = [] \<or> last (getBaseSubjectName S) \<noteq> 0x5F"
    unfolding getBaseSubjectName_def by (rule strip_no_trailing)
  ultimately show "getBaseSubjectName (getBaseSubjectName S) = getBaseSubjectName S"
    unfolding getBaseSubjectName_def[of "getBaseSubjectName S"] by (simp add: strip_id)
qed

text \<open>
  The theorem at \<open>"Mathematics_(2018)"\<close>, whose base name \<open>"Mathematics"\<close> has no year token.
\<close>

theorem getBaseSubjectName_idempotent_iff_witness:
  "getBaseSubjectName (js ''Mathematics_(2018)'') = js ''Mathematics'' \<and>
   \<not> has_year_token (getBaseSubjectName (js ''Mathematics_(2018)'')) \<and>
   getBaseSubjectName (getBaseSubjectName (js ''Mathematics_(2018)'')) =
     getBaseSubjectName (js ''Mathematics_(2018)'')"
proof -
  have v: "getBaseSubjectName (js ''Mathematics_(2018)'') = js ''Mathematics''"
    by code_simp
  have h: "\<not> has_year_token (getBaseSubjectName (js ''Mathematics_(2018)''))"
    by code_simp
  from getBaseSubjectName_idempotent_iff [of "js ''Mathematics_(2018)''"] h v
  show ?thesis by blast
qed

section \<open>Claims about the ledger\<close>

text \<open>
  Claim C10. The ledger that \<open>markAsFailed\<close> produces does not depend on its error
  argument: for every ledger and every two reasons the results are equal. The ledger has no
  place that holds a reason.
\<close>

theorem markAsFailed_ignores_reason:
  "markAsFailed q s subj u r1 p = markAsFailed q s subj u r2 p"
  by (simp add: markAsFailed_def)

text \<open>
  Claim C6. When the ledger file is missing or is not valid JSON, \<open>initialize\<close> does not
  raise: the tracker keeps the constructor's empty ledger (empty \<open>completed\<close>, \<open>failed\<close>
  and \<open>completedSessions\<close>, all six counters zero), stamped with the time of the save, and
  this ledger is what the file holds afterwards. The run then goes on from it: it is the
  run that starts one tick later from a file that holds the fresh ledger, and when the
  listing has a valid session it ends normally, with the final ledger in the file, the
  number of valid sessions counted, every valid session visited (none is skipped as
  already complete), and as many completed units counted as artifact files written.
  Writing the file is taken to succeed: \<open>main\<close> creates its directory before the run.
\<close>

theorem initialize_recovers_fresh_ledger:
  assumes "ledger = NoFile \<or> ledger = Invalid"
  shows "initialize \<lparr>progress = ProgressTracker, disk = ledger, clock = now,
                      artifacts = files, trace = tr\<rparr> =
           \<lparr>progress = ProgressTracker\<lparr>lastUpdate := Some now\<rparr>,
            disk = Doc (Full (ProgressTracker\<lparr>lastUpdate := Some now\<rparr>)),
            clock = now + 1, artifacts = files, trace = tr\<rparr> \<and>
         completed (ProgressTracker\<lparr>lastUpdate := Some now\<rparr>) = Map.empty \<and>
         failed (ProgressTracker\<lparr>lastUpdate := Some now\<rparr>) = Map.empty \<and>
         completedSessions (ProgressTracker\<lparr>lastUpdate := Some now\<rparr>) = Map.empty \<and>
         stats (ProgressTracker\<lparr>lastUpdate := Some now\<rparr>) =
           \<lparr>totalSessions = 0, totalSubjects = 0, totalUnits = 0, completedUnits = 0,
            failedUnits = 0, completedSessionsCount = 0\<rparr> \<and>
         scrapeSeries toLowerCase site ledger now files =
           scrapeSeries toLowerCase site
             (Doc (Full (ProgressTracker\<lparr>lastUpdate := Some now\<rparr>))) (now + 1) files \<and>
         (sessionLinks site = Inr l \<and> filter valid_session l \<noteq> [] \<longrightarrow>
            (\<exists>st. scrapeSeries toLowerCase site ledger now files = Inr st \<and>
                  disk st = Doc (Full (progress st)) \<and>
                  totalSessions (stats (progress st)) = length (filter valid_session l) \<and>
                  (\<forall>s\<in>set (filter valid_session l). NavigateToSession s \<in> set (trace st)) \<and>
                  completedUnits (stats (progress st)) + length files = length (artifacts st)))"
proof -
  have init: "initialize \<lparr>progress = ProgressTracker, disk = ledger, clock = now,
                      artifacts = files, trace = x\<rparr> =
           \<lparr>progress = ProgressTracker\<lparr>lastUpdate := Some now\<rparr>,
            disk = Doc (Full (ProgressTracker\<lparr>lastUpdate := Some now\<rparr>)),
            clock = now + 1, artifacts = files, trace = x\<rparr>" for x
    using assms by (auto simp: initialize_def save_def Let_def)
  have load: "initialize \<lparr>progress = ProgressTracker,
                      disk = Doc (Full (ProgressTracker\<lparr>lastUpdate := Some now\<rparr>)),
                      clock = now + 1, artifacts = files, trace = []\<rparr> =
           \<lparr>progress = ProgressTracker\<lparr>lastUpdate := Some now\<rparr>,
            disk = Doc (Full (ProgressTracker\<lparr>lastUpdate := Some now\<rparr>)),
            clock = now + 1, artifacts = files, trace = []\<rparr>"
    by (simp add: initialize_def)
  have same: "scrapeSeries toLowerCase site ledger now files =
           scrapeSeries toLowerCase site
             (Doc (Full (ProgressTracker\<lparr>lastUpdate := Some now\<rparr>))) (now + 1) files"
    unfolding scrapeSeries_def init load ..
  have run: "sessionLinks site = Inr l \<and> filter valid_session l \<noteq> [] \<longrightarrow>
            (\<exists>st. scrapeSeries toLowerCase site ledger now files = Inr st \<and>
                  disk st = Doc (Full (progress st)) \<and>
                  totalSessions (stats (progress st)) = length (filter valid_session l) \<and>
                  (\<forall>s\<in>set (filter valid_session l). NavigateToSession s \<in> set (trace st)) \<and>
                  completedUnits (stats (progress st)) + length files = length (artifacts st))"
    using scrapeSeries_fresh[OF _ _ init] by blast
  have empty: "completed (ProgressTracker\<lparr>lastUpdate := Some now\<rparr>) = Map.empty \<and>
         failed (ProgressTracker\<lparr>lastUpdate := Some now\<rparr>) = Map.empty \<and>
         completedSessions (ProgressTracker\<lparr>lastUpdate := Some now\<rparr>) = Map.empty \<and>
         stats (ProgressTracker\<lparr>lastUpdate := Some now\<rparr>) =
           \<lparr>totalSessions = 0, totalSubjects = 0, totalUnits = 0, completedUnits = 0,
            failedUnits = 0, completedSessionsCount = 0\<rparr>"
    by (simp add: ProgressTracker_def)
  from init[of tr] empty same run show ?thesis by blast
qed

text \<open>
  The theorem for a missing file and a site that lists the session \<open>June 2019\<close>: the run
  ends normally and has visited the session.
\<close>

theorem initialize_recovers_fresh_ledger_witness:
  "disk (initialize \<lparr>progress = ProgressTracker, disk = NoFile, clock = 7,
                      artifacts = [], trace = []\<rparr>) =
     Doc (Full (ProgressTracker\<lparr>lastUpdate := Some 7\<rparr>)) \<and>
   scrapeSeries ascii_lower site1 NoFile 7 [] =
     scrapeSeries ascii_lower site1 (Doc (Full (ProgressTracker\<lparr>lastUpdate := Some 7\<rparr>))) 8 [] \<and>
   (\<exists>st. scrapeSeries ascii_lower site1 NoFile 7 [] = Inr st \<and>
         disk st = Doc (Full (progress st)) \<and>
         totalSessions (stats (progress st)) = 1 \<and>
         NavigateToSession (js ''June 2019'') \<in> set (trace st) \<and>
         completedUnits (stats (progress st)) = length (artifacts st))"
proof -
  have l: "sessionLinks site1 = Inr [js ''June 2019'']"
    by (simp add: site1_def)
  have v: "filter valid_session [js ''June 2019''] = [js ''June 2019'']"
    by code_simp
  have h: "sessionLinks site1 = Inr [js ''June 2019''] \<and>
           filter valid_session [js ''June 2019''] \<noteq> []"
    unfolding v using l by simp
  note fresh = initialize_recovers_fresh_ledger
    [of NoFile 7 "[]" "[]" ascii_lower site1 "[js ''June 2019'']"]
  from fresh have "initialize \<lparr>progress = ProgressTracker, disk = NoFile, clock = 7,
                      artifacts = [], trace = []\<rparr> =
           \<lparr>progress = ProgressTracker\<lparr>lastUpdate := Some 7\<rparr>,
            disk = Doc (Full (ProgressTracker\<lparr>lastUpdate := Some 7\<rparr>)),
            clock = 7 + 1, artifacts = [], trace = []\<rparr>" by blast
  then have stored: "disk (initialize \<lparr>progress = ProgressTracker, disk = NoFile, clock = 7,
                      artifacts = [], trace = []\<rparr>) =
     Doc (Full (ProgressTracker\<lparr>lastUpdate := Some 7\<rparr>))" by simp
  from fresh have "scrapeSeries ascii_lower site1 NoFile 7 [] =
     scrapeSeries ascii_lower site1 (Doc (Full (ProgressTracker\<lparr>lastUpdate := Some 7\<rparr>)))
       (7 + 1) []" by blast
  then have same: "scrapeSeries ascii_lower site1 NoFile 7 [] =
     scrapeSeries ascii_lower site1 (Doc (Full (ProgressTracker\<lparr>lastUpdate := Some 7\<rparr>))) 8 []"
    by simp
  from fresh h obtain st where st: "scrapeSeries ascii_lower site1 NoFile 7 [] = Inr st"
    "disk st = Doc (Full (progress st))"
    "totalSessions (stats (progress st)) = length (filter valid_session [js ''June 2019''])"
    "\<forall>s\<in>set (filter valid_session [js ''June 2019'']). NavigateToSession s \<in> set (trace st)"
    "completedUnits (stats (progress st)) + length ([] :: artifact list) = length (artifacts st)"
    by blast
  from st(3) have n: "totalSessions (stats (progress st)) = 1" unfolding v by simp
  from st(4) have visit: "NavigateToSession (js ''June 2019'') \<in> set (trace st)"
    unfolding v by simp
  from st(5) have count: "completedUnits (stats (progress st)) = length (artifacts st)" by simp
  from st(1,2) n visit count
  have "\<exists>st. scrapeSeries ascii_lower site1 NoFile 7 [] = Inr st \<and>
         disk st = Doc (Full (progress st)) \<and>
         totalSessions (stats (progress st)) = 1 \<and>
         NavigateToSession (js ''June 2019'') \<in> set (trace st) \<and>
         completedUnits (stats (progress st)) = length (artifacts st)" by blast
  with stored same show ?thesis by blast
qed

section \<open>Claims about the merge engine\<close>

text \<open>The engine on the concrete trees.\<close>

lemma organizeData_c2_tree:
  "organizeData c2_tree = (None, \<lparr>totalFiles = 3, duplicates = 0, performed =
     [Mkdir [], Mkdir [js ''IAL''], Mkdir [js ''IAL'', js ''June_2019''],
      Mkdir [js ''IAL'', js ''June_2019'', js ''Mathematics''],
      CopyFile [js ''IAL'', js ''June_2019'', js ''Mathematics_(2018)'', js ''WMA01-01_a.json'']
               [js ''IAL'', js ''June_2019'', js ''Mathematics'', js ''WMA01-01_a.json''],
      Mkdir [js ''IAL'', js ''June_2019'', js ''Mathematics''],
      CopyFile [js ''IAL'', js ''June_2019'', js ''Further_Mathematics'', js ''WMA01-01_b.json'']
               [js ''IAL'', js ''June_2019'', js ''Mathematics'', js ''WMA01-01_b.json''],
      Mkdir [js ''IAL'', js ''June_2019'', js ''Pure_Mathematics''],
      CopyFile [js ''IAL'', js ''June_2019'', js ''Pure_Mathematics_(2015)'', js ''WMA01-01_c.json'']
               [js ''IAL'', js ''June_2019'', js ''Pure_Mathematics'', js ''WMA01-01_c.json'']]\<rparr>)"
  by code_simp

lemma organizeData_c2_tree_same:
  "organizeData c2_tree_same = (None, \<lparr>totalFiles = 3, duplicates = 0, performed =
     [Mkdir [], Mkdir [js ''IAL''], Mkdir [js ''IAL'', js ''June_2019''],
      Mkdir [js ''IAL'', js ''June_2019'', js ''Mathematics''],
      CopyFile [js ''IAL'', js ''June_2019'', js ''Mathematics_(2018)'', js ''WMA01-01.json'']
               [js ''IAL'', js ''June_2019'', js ''Mathematics'', js ''WMA01-01.json''],
      Mkdir [js ''IAL'', js ''June_2019'', js ''Mathematics''],
      CopyFile [js ''IAL'', js ''June_2019'', js ''Further_Mathematics'', js ''WMA01-01.json'']
               [js ''IAL'', js ''June_2019'', js ''Mathematics'', js ''WMA01-01.json''],
      Mkdir [js ''IAL'', js ''June_2019'', js ''Pure_Mathematics''],
      CopyFile [js ''IAL'', js ''June_2019'', js ''Pure_Mathematics_(2015)'', js ''WMA01-01.json'']
               [js ''IAL'', js ''June_2019'', js ''Pure_Mathematics'', js ''WMA01-01.json'']]\<rparr>)"
  by code_simp

lemma organizeData_c4_tree:
  "organizeData c4_tree = (None, \<lparr>totalFiles = 2, duplicates = 0, performed =
     [Mkdir [], Mkdir [js ''IAL''], Mkdir [js ''IAL'', js ''June_2019''],
      Mkdir [js ''IAL'', js ''June_2019'', js ''Mathematics''],
      CopyFile [js ''IAL'', js ''June_2019'', js ''Mathematics'', js ''WMA01-01.json'']
               [js ''IAL'', js ''June_2019'', js ''Mathematics'', js ''WMA01-01.json''],
      Mkdir [js ''IAL'', js ''June_2019'', js ''Mathematics''],
      CopyFile [js ''IAL'', js ''June_2019'', js ''Further_Mathematics'', js ''WMA01-01_F.json'']
               [js ''IAL'', js ''June_2019'', js ''Mathematics'', js ''WMA01-01_F.json'']]\<rparr>)"
  by code_simp

lemma organizeData_physics_tree:
  "organizeData physics_tree = (None, \<lparr>totalFiles = 3, duplicates = 1, performed =
     [Mkdir [], Mkdir [js ''IAL''], Mkdir [js ''IAL'', js ''June_2019''],
      Mkdir [js ''IAL'', js ''June_2019'', js ''Physics''],
      CopyFile [js ''IAL'', js ''June_2019'', js ''Physics'', js ''WPH01-01.json'']
               [js ''IAL'', js ''June_2019'', js ''Physics'', js ''WPH01-01.json''],
      CopyFile [js ''IAL'', js ''June_2019'', js ''Physics'', js ''WPH02-01.json'']
               [js ''IAL'', js ''June_2019'', js ''Physics'', js ''WPH02-01.json'']]\<rparr>)"
  by code_simp

lemma processRegularSubjects_physics:
  "processRegularSubjects physics_session june (js ''Physics'')
     [js ''Physics'', js ''Physics_(2018)''] june [] =
   (None, \<lparr>processedUnitCodes = [js ''WPH01-01'', js ''WPH02-01''], processedFiles = 3,
           duplicatesFound = 1,
           ops = [Mkdir [js ''IAL'', js ''June_2019'', js ''Physics''],
                  CopyFile [js ''IAL'', js ''June_2019'', js ''Physics'', js ''WPH01-01.json'']
                           [js ''IAL'', js ''June_2019'', js ''Physics'', js ''WPH01-01.json''],
                  CopyFile [js ''IAL'', js ''June_2019'', js ''Physics'', js ''WPH02-01.json'']
                           [js ''IAL'', js ''June_2019'', js ''Physics'', js ''WPH02-01.json'']]\<rparr>)"
  by code_simp

lemma processRegularSubjects_broken:
  "processRegularSubjects broken_session june (js ''Physics'') [js ''Physics''] june [] =
   (None, \<lparr>processedUnitCodes = [js ''WPH01-01''], processedFiles = 1, duplicatesFound = 0,
           ops = [Mkdir [js ''IAL'', js ''June_2019'', js ''Physics'']]\<rparr>)"
  by code_simp

text \<open>
  Claim C2. The claim expects that the session folder with the raw subjects
  \<open>Mathematics_(2018)\<close>, \<open>Further_Mathematics\<close> and \<open>Pure_Mathematics_(2015)\<close>, each with
  one file of code \<open>WMA01-01\<close>, ends as one \<open>Mathematics\<close> folder with one such file and a
  duplicate count of 2. The engine groups by base name first, tests the raw names of each
  group against the three exact names, and starts every group with an empty set of codes:
  the report is 3 files and 0 duplicates, \<open>Pure_Mathematics_(2015)\<close> goes to a folder
  \<open>Pure_Mathematics\<close> of its own, and \<open>Mathematics\<close> receives the file of
  \<open>Mathematics_(2018)\<close> and the file of \<open>Further_Mathematics\<close>: two files of code
  \<open>WMA01-01\<close> when their names differ, one overwritten file when they agree.
\<close>

theorem organizeData_math_consolidation:
  "fst (organizeData c2_tree) = None \<and>
   totalFiles (snd (organizeData c2_tree)) = 3 \<and>
   duplicates (snd (organizeData c2_tree)) = 0 \<and>
   folder_files (performed (snd (organizeData c2_tree))) (june @ [js ''Mathematics'']) =
     [js ''WMA01-01_a.json'', js ''WMA01-01_b.json''] \<and>
   parseUnitCode (js ''WMA01-01_a.json'') = Some (js ''WMA01-01'') \<and>
   parseUnitCode (js ''WMA01-01_b.json'') = Some (js ''WMA01-01'') \<and>
   folder_files (performed (snd (organizeData c2_tree))) (june @ [js ''Pure_Mathematics'']) =
     [js ''WMA01-01_c.json''] \<and>
   fst (organizeData c2_tree_same) = None \<and>
   duplicates (snd (organizeData c2_tree_same)) = 0 \<and>
   folder_files (performed (snd (organizeData c2_tree_same))) (june @ [js ''Mathematics'']) =
     [js ''WMA01-01.json''] \<and>
   folder_files (performed (snd (organizeData c2_tree_same))) (june @ [js ''Pure_Mathematics'']) =
     [js ''WMA01-01.json'']"
proof -
  have "parseUnitCode (js ''WMA01-01_a.json'') = Some (js ''WMA01-01'')"
       "parseUnitCode (js ''WMA01-01_b.json'') = Some (js ''WMA01-01'')"
    by code_simp+
  then show ?thesis
    unfolding organizeData_c2_tree organizeData_c2_tree_same
    by (simp add: folder_files_def june_def js_def)
qed

text \<open>
  Claim C4. The claim expects at most one file per unit code in every folder of the target
  tree. From the raw subjects \<open>Mathematics\<close> and \<open>Further_Mathematics\<close> of one session,
  holding \<open>WMA01-01.json\<close> and \<open>WMA01-01_F.json\<close>, the engine copies both files into
  the folder \<open>Mathematics\<close>: two different files of the same code, and no duplicate
  counted.
\<close>

theorem organizeData_two_files_one_code:
  "fst (organizeData c4_tree) = None \<and>
   duplicates (snd (organizeData c4_tree)) = 0 \<and>
   folder_files (performed (snd (organizeData c4_tree))) (june @ [js ''Mathematics'']) =
     [js ''WMA01-01.json'', js ''WMA01-01_F.json''] \<and>
   js ''WMA01-01.json'' \<noteq> js ''WMA01-01_F.json'' \<and>
   parseUnitCode (js ''WMA01-01.json'') = Some (js ''WMA01-01'') \<and>
   parseUnitCode (js ''WMA01-01_F.json'') = Some (js ''WMA01-01'')"
proof -
  have "parseUnitCode (js ''WMA01-01.json'') = Some (js ''WMA01-01'')"
       "parseUnitCode (js ''WMA01-01_F.json'') = Some (js ''WMA01-01'')"
    by code_simp+
  then show ?thesis
    unfolding organizeData_c4_tree
    by (simp add: folder_files_def june_def js_def)
qed

text \<open>
  Claim C5, as stated: every invocation returns \<open>duplicatesFound\<close> equal to
  \<open>processedFiles\<close> minus the number of distinct unit codes it copied into the target
  folder. When \<open>copyFile\<close> raises \<open>ENOENT\<close> on the only file of a subject folder (a link to
  nothing, say), the file has been counted and its code recorded, the handler skips the
  variant, and the invocation returns 1 processed file, 0 duplicates and no copy.
\<close>

theorem duplicate_count_copy_fails:
  "fst (processRegularSubjects broken_session june (js ''Physics'') [js ''Physics''] june []) = None \<and>
   duplicatesFound
     (snd (processRegularSubjects broken_session june (js ''Physics'') [js ''Physics''] june [])) \<noteq>
   processedFiles
     (snd (processRegularSubjects broken_session june (js ''Physics'') [js ''Physics''] june [])) -
   length (remdups (copied_codes (ops
     (snd (processRegularSubjects broken_session june (js ''Physics'') [js ''Physics''] june [])))))"
  unfolding processRegularSubjects_broken
  by (simp add: copied_codes_def)

text \<open>
  Claim C5, amended. Every invocation of \<open>processRegularSubjects\<close> and of
  \<open>processMathSubjects\<close> that returns has \<open>duplicatesFound\<close> equal to \<open>processedFiles\<close>
  minus the number of unit codes it recorded in \<open>processedUnitCodes\<close>, which are pairwise
  distinct; the codes of the files it copied are among the recorded ones, in the same order,
  and are all of them when every entry of the session's subject folders can be copied, so
  that \<open>duplicatesFound\<close> is then \<open>processedFiles\<close> minus the number of files copied.
  Consequently the totals that \<open>organizeData\<close> reports satisfy
  \<open>duplicates + copies \<le> totalFiles\<close>, with equality when every entry of every subject
  folder can be copied.
\<close>

theorem merge_duplicate_count:
  "((processRegularSubjects sessionDir sessionPath baseSubject subjectVariants targetSessionPath done
       = (None, st) \<or>
     processMathSubjects sessionDir sessionPath subjectVariants targetSessionPath done
       = (None, st)) \<longrightarrow>
      duplicatesFound st + length (processedUnitCodes st) = processedFiles st \<and>
      distinct (processedUnitCodes st) \<and>
      (\<exists>xs. copied_codes (ops st) = copied_codes done @ xs \<and>
            subseq xs (processedUnitCodes st)) \<and>
      (regular_session sessionDir \<longrightarrow>
         copied_codes (ops st) = copied_codes done @ processedUnitCodes st \<and>
         copies (ops st) = copies done + length (processedUnitCodes st))) \<and>
   (organizeData source = (None, t) \<longrightarrow>
      duplicates t + copies (performed t) \<le> totalFiles t \<and>
      (regular_source source \<longrightarrow> duplicates t + copies (performed t) = totalFiles t))"
proof (intro conjI impI)
  assume "processRegularSubjects sessionDir sessionPath baseSubject subjectVariants
            targetSessionPath done = (None, st) \<or>
          processMathSubjects sessionDir sessionPath subjectVariants targetSessionPath done
            = (None, st)"
  then obtain tp where pv: "process_variants sessionDir sessionPath tp subjectVariants
             \<lparr>processedUnitCodes = [], processedFiles = 0, duplicatesFound = 0,
              ops = done @ [Mkdir tp]\<rparr> = (None, st)"
    by (auto simp: processMathSubjects_def processRegularSubjects_def Let_def)
  show "duplicatesFound st + length (processedUnitCodes st) = processedFiles st"
    by (rule invocation(1)[OF pv])
  show "distinct (processedUnitCodes st)"
    by (rule invocation(2)[OF pv])
  show "\<exists>xs. copied_codes (ops st) = copied_codes done @ xs \<and> subseq xs (processedUnitCodes st)"
    by (rule invocation(3)[OF pv])
  assume reg: "regular_session sessionDir"
  show "copied_codes (ops st) = copied_codes done @ processedUnitCodes st"
    using invocation(5)[OF pv refl reg] by simp
  show "copies (ops st) = copies done + length (processedUnitCodes st)"
    using invocation(5)[OF pv refl reg] by simp
next
  assume "organizeData source = (None, t)"
  then show "duplicates t + copies (performed t) \<le> totalFiles t"
    by (rule organizeData_totals(1))
next
  assume "organizeData source = (None, t)" "regular_source source"
  then show "duplicates t + copies (performed t) = totalFiles t"
    by (rule organizeData_totals(2))
qed

text \<open>
  The theorem for the subjects \<open>Physics\<close> and \<open>Physics_(2018)\<close> with three files of two
  codes: one duplicate and two copies.
\<close>

theorem merge_duplicate_count_witness:
  "processRegularSubjects physics_session june (js ''Physics'')
     [js ''Physics'', js ''Physics_(2018)''] june [] =
   (None, \<lparr>processedUnitCodes = [js ''WPH01-01'', js ''WPH02-01''], processedFiles = 3,
           duplicatesFound = 1,
           ops = [Mkdir [js ''IAL'', js ''June_2019'', js ''Physics''],
                  CopyFile [js ''IAL'', js ''June_2019'', js ''Physics'', js ''WPH01-01.json'']
                           [js ''IAL'', js ''June_2019'', js ''Physics'', js ''WPH01-01.json''],
                  CopyFile [js ''IAL'', js ''June_2019'', js ''Physics'', js ''WPH02-01.json'']
                           [js ''IAL'', js ''June_2019'', js ''Physics'', js ''WPH02-01.json'']]\<rparr>) \<and>
   regular_session physics_session \<and>
   (1::nat) + length [js ''WPH01-01'', js ''WPH02-01''] = 3 \<and>
   distinct [js ''WPH01-01'', js ''WPH02-01''] \<and>
   copies [Mkdir [js ''IAL'', js ''June_2019'', js ''Physics''],
           CopyFile [js ''IAL'', js ''June_2019'', js ''Physics'', js ''WPH01-01.json'']
                    [js ''IAL'', js ''June_2019'', js ''Physics'', js ''WPH01-01.json''],
           CopyFile [js ''IAL'', js ''June_2019'', js ''Physics'', js ''WPH02-01.json'']
                    [js ''IAL'', js ''June_2019'', js ''Physics'', js ''WPH02-01.json'']] =
     copies [] + length [js ''WPH01-01'', js ''WPH02-01''] \<and>
   fst (organizeData physics_tree) = None \<and> regular_source physics_tree \<and>
   duplicates (snd (organizeData physics_tree)) + copies (performed (snd (organizeData physics_tree)))
     = totalFiles (snd (organizeData physics_tree))"
proof -
  have r1: "regular_session physics_session" by code_simp
  have r2: "regular_source physics_tree" by code_simp
  note inst = merge_duplicate_count
    [of physics_session june "js ''Physics''" "[js ''Physics'', js ''Physics_(2018)'']" june "[]"
        "snd (processRegularSubjects physics_session june (js ''Physics'')
               [js ''Physics'', js ''Physics_(2018)''] june [])"
        physics_tree "snd (organizeData physics_tree)"]
  show ?thesis
    using inst r1 r2
    unfolding processRegularSubjects_physics organizeData_physics_tree
    by simp
qed

section \<open>Claims about the orchestrator\<close>

text \<open>
  Runs on the concrete sites. \<open>site1\<close> lists one session with one subject and one unit whose
  table has no rows; on \<open>site1_raising\<close> the extraction of that unit raises instead.
  \<open>site2\<close> lists two valid sessions, each with the subject \<open>Physics\<close> and one unit whose
  table has rows; \<open>site3\<close> lists a third session in addition.
\<close>

lemma run_site1:
  "(case scrapeSeries ascii_lower site1 NoFile 0 [] of
      Inl e \<Rightarrow> False
    | Inr st1 \<Rightarrow>
        hasFailed (progress st1) QUALIFICATION_TYPE (js ''June 2019'') (js ''Physics'') (js ''WPH01'') \<and>
        \<not> isSessionCompleted (progress st1) QUALIFICATION_TYPE (js ''June 2019'') \<and>
        stats (progress st1) = \<lparr>totalSessions = 1, totalSubjects = 1, totalUnits = 1,
          completedUnits = 0, failedUnits = 1, completedSessionsCount = 0\<rparr> \<and>
        trace st1 = [NavigateToSession (js ''June 2019''), SelectSubject (js ''Physics''),
          SelectUnit (js ''WPH01''), SelectAllScoresTab, ExtractAllScoresData] \<and>
        (case scrapeSeries ascii_lower site1 (disk st1) (clock st1) (artifacts st1) of
           Inl e \<Rightarrow> False
         | Inr st2 \<Rightarrow>
             isSessionCompleted (progress st2) QUALIFICATION_TYPE (js ''June 2019'') \<and>
             stats (progress st2) = \<lparr>totalSessions = 1, totalSubjects = 1, totalUnits = 1,
               completedUnits = 0, failedUnits = 1, completedSessionsCount = 1\<rparr>))"
  by code_simp

lemma run_site1_raising:
  "(case scrapeSeries ascii_lower site1_raising NoFile 0 [] of
      Inl e \<Rightarrow> False
    | Inr st1 \<Rightarrow>
        hasFailed (progress st1) QUALIFICATION_TYPE (js ''June 2019'') (js ''Physics'') (js ''WPH01'') \<and>
        isSessionCompleted (progress st1) QUALIFICATION_TYPE (js ''June 2019''))"
  by code_simp

lemma run_site2:
  "(case scrapeSeries ascii_lower site2 NoFile 0 [] of
      Inl e \<Rightarrow> False
    | Inr st1 \<Rightarrow>
        stats (progress st1) = \<lparr>totalSessions = 2, totalSubjects = 2, totalUnits = 1,
          completedUnits = 2, failedUnits = 0, completedSessionsCount = 2\<rparr> \<and>
        progress_str (getSummary (progress st1)) = js ''200%'' \<and>
        (case scrapeSeries ascii_lower site2 (disk st1) (clock st1) (artifacts st1) of
           Inl e \<Rightarrow> False
         | Inr st2 \<Rightarrow>
             stats (progress st2) = \<lparr>totalSessions = 2, totalSubjects = 0, totalUnits = 0,
               completedUnits = 2, failedUnits = 0, completedSessionsCount = 2\<rparr> \<and>
             trace st2 = []) \<and>
        (case scrapeSeries ascii_lower site3 (disk st1) (clock st1) (artifacts st1) of
           Inl e \<Rightarrow> False
         | Inr st2 \<Rightarrow>
             stats (progress st2) = \<lparr>totalSessions = 3, totalSubjects = 1, totalUnits = 1,
               completedUnits = 3, failedUnits = 0, completedSessionsCount = 3\<rparr> \<and>
             progress_str (getSummary (progress st2)) = js ''300%''))"
  by code_simp

lemma first_run_eq:
  "scrapeSeries ascii_lower site NoFile 0 [] = Inr st \<Longrightarrow> first_run site = st"
  by (simp add: first_run_def)

lemma later_run_eq:
  "scrapeSeries ascii_lower site (disk st) (clock st) (artifacts st) = Inr st' \<Longrightarrow>
     later_run site st = st'"
  by (simp add: later_run_def)

lemma site1_runs:
  "scrapeSeries ascii_lower site1 NoFile 0 [] = Inr (first_run site1)"
  "scrapeSeries ascii_lower site1 (disk (first_run site1)) (clock (first_run site1))
     (artifacts (first_run site1)) = Inr (later_run site1 (first_run site1))"
  "hasFailed (progress (first_run site1)) QUALIFICATION_TYPE (js ''June 2019'') (js ''Physics'')
     (js ''WPH01'')"
  "\<not> isSessionCompleted (progress (first_run site1)) QUALIFICATION_TYPE (js ''June 2019'')"
  "stats (progress (first_run site1)) = \<lparr>totalSessions = 1, totalSubjects = 1, totalUnits = 1,
     completedUnits = 0, failedUnits = 1, completedSessionsCount = 0\<rparr>"
  "isSessionCompleted (progress (later_run site1 (first_run site1))) QUALIFICATION_TYPE
     (js ''June 2019'')"
  "stats (progress (later_run site1 (first_run site1))) =
     \<lparr>totalSessions = 1, totalSubjects = 1, totalUnits = 1,
      completedUnits = 0, failedUnits = 1, completedSessionsCount = 1\<rparr>"
proof -
  obtain st1 where r1: "scrapeSeries ascii_lower site1 NoFile 0 [] = Inr st1"
    using run_site1 by (cases "scrapeSeries ascii_lower site1 NoFile 0 []") auto
  note f1 = first_run_eq[OF r1]
  obtain st2 where r2:
    "scrapeSeries ascii_lower site1 (disk st1) (clock st1) (artifacts st1) = Inr st2"
    using run_site1 r1
    by (cases "scrapeSeries ascii_lower site1 (disk st1) (clock st1) (artifacts st1)") auto
  note f2 = later_run_eq[OF r2]
  show "scrapeSeries ascii_lower site1 NoFile 0 [] = Inr (first_run site1)"
    "scrapeSeries ascii_lower site1 (disk (first_run site1)) (clock (first_run site1))
       (artifacts (first_run site1)) = Inr (later_run site1 (first_run site1))"
    "hasFailed (progress (first_run site1)) QUALIFICATION_TYPE (js ''June 2019'') (js ''Physics'')
       (js ''WPH01'')"
    "\<not> isSessionCompleted (progress (first_run site1)) QUALIFICATION_TYPE (js ''June 2019'')"
    "stats (progress (first_run site1)) = \<lparr>totalSessions = 1, totalSubjects = 1, totalUnits = 1,
       completedUnits = 0, failedUnits = 1, completedSessionsCount = 0\<rparr>"
    "isSessionCompleted (progress (later_run site1 (first_run site1))) QUALIFICATION_TYPE
       (js ''June 2019'')"
    "stats (progress (later_run site1 (first_run site1))) =
       \<lparr>totalSessions = 1, totalSubjects = 1, totalUnits = 1,
        completedUnits = 0, failedUnits = 1, completedSessionsCount = 1\<rparr>"
    using run_site1 r1 r2 unfolding f1 f2 by simp_all
qed

lemma site1_raising_runs:
  "scrapeSeries ascii_lower site1_raising NoFile 0 [] = Inr (first_run site1_raising)"
  "hasFailed (progress (first_run site1_raising)) QUALIFICATION_TYPE (js ''June 2019'')
     (js ''Physics'') (js ''WPH01'')"
  "isSessionCompleted (progress (first_run site1_raising)) QUALIFICATION_TYPE (js ''June 2019'')"
proof -
  obtain st1 where r1: "scrapeSeries ascii_lower site1_raising NoFile 0 [] = Inr st1"
    using run_site1_raising by (cases "scrapeSeries ascii_lower site1_raising NoFile 0 []") auto
  note f1 = first_run_eq[OF r1]
  show "scrapeSeries ascii_lower site1_raising NoFile 0 [] = Inr (first_run site1_raising)"
    "hasFailed (progress (first_run site1_raising)) QUALIFICATION_TYPE (js ''June 2019'')
       (js ''Physics'') (js ''WPH01'')"
    "isSessionCompleted (progress (first_run site1_raising)) QUALIFICATION_TYPE (js ''June 2019'')"
    using run_site1_raising r1 unfolding f1 by simp_all
qed

lemma site2_runs:
  "scrapeSeries ascii_lower site2 NoFile 0 [] = Inr (first_run site2)"
  "scrapeSeries ascii_lower site2 (disk (first_run site2)) (clock (first_run site2))
     (artifacts (first_run site2)) = Inr (later_run site2 (first_run site2))"
  "scrapeSeries ascii_lower site3 (disk (first_run site2)) (clock (first_run site2))
     (artifacts (first_run site2)) = Inr (later_run site3 (first_run site2))"
  "stats (progress (first_run site2)) = \<lparr>totalSessions = 2, totalSubjects = 2, totalUnits = 1,
     completedUnits = 2, failedUnits = 0, completedSessionsCount = 2\<rparr>"
  "progress_str (getSummary (progress (first_run site2))) = js ''200%''"
  "stats (progress (later_run site2 (first_run site2))) =
     \<lparr>totalSessions = 2, totalSubjects = 0, totalUnits = 0,
      completedUnits = 2, failedUnits = 0, completedSessionsCount = 2\<rparr>"
  "trace (later_run site2 (first_run site2)) = []"
  "stats (progress (later_run site3 (first_run site2))) =
     \<lparr>totalSessions = 3, totalSubjects = 1, totalUnits = 1,
      completedUnits = 3, failedUnits = 0, completedSessionsCount = 3\<rparr>"
  "progress_str (getSummary (progress (later_run site3 (first_run site2)))) = js ''300%''"
proof -
  obtain st1 where r1: "scrapeSeries ascii_lower site2 NoFile 0 [] = Inr st1"
    using run_site2 by (cases "scrapeSeries ascii_lower site2 NoFile 0 []") auto
  note f1 = first_run_eq[OF r1]
  obtain st2 where r2:
    "scrapeSeries ascii_lower site2 (disk st1) (clock st1) (artifacts st1) = Inr st2"
    using run_site2 r1
    by (cases "scrapeSeries ascii_lower site2 (disk st1) (clock st1) (artifacts st1)") auto
  note f2 = later_run_eq[OF r2]
  obtain st3 where r3:
    "scrapeSeries ascii_lower site3 (disk st1) (clock st1) (artifacts st1) = Inr st3"
    using run_site2 r1
    by (cases "scrapeSeries ascii_lower site3 (disk st1) (clock st1) (artifacts st1)") auto
  note f3 = later_run_eq[OF r3]
  show "scrapeSeries ascii_lower site2 NoFile 0 [] = Inr (first_run site2)"
    "scrapeSeries ascii_lower site2 (disk (first_run site2)) (clock (first_run site2))
       (artifacts (first_run site2)) = Inr (later_run site2 (first_run site2))"
    "scrapeSeries ascii_lower site3 (disk (first_run site2)) (clock (first_run site2))
       (artifacts (first_run site2)) = Inr (later_run site3 (first_run site2))"
    "stats (progress (first_run site2)) = \<lparr>totalSessions = 2, totalSubjects = 2, totalUnits = 1,
       completedUnits = 2, failedUnits = 0, completedSessionsCount = 2\<rparr>"
    "progress_str (getSummary (progress (first_run site2))) = js ''200%''"
    "stats (progress (later_run site2 (first_run site2))) =
       \<lparr>totalSessions = 2, totalSubjects = 0, totalUnits = 0,
        completedUnits = 2, failedUnits = 0, completedSessionsCount = 2\<rparr>"
    "trace (later_run site2 (first_run site2)) = []"
    "stats (progress (later_run site3 (first_run site2))) =
       \<lparr>totalSessions = 3, totalSubjects = 1, totalUnits = 1,
        completedUnits = 3, failedUnits = 0, completedSessionsCount = 3\<rparr>"
    "progress_str (getSummary (progress (later_run site3 (first_run site2)))) = js ''300%''"
    using run_site2 r1 r2 r3 unfolding f1 f2 f3 by simp_all
qed

text \<open>
  Claim C1. The claim expects the session flag to be set as soon as every unit discovered
  under the session is in the completed or the failed set. On \<open>site1\<close> the only unit of the
  only subject of \<open>June 2019\<close> yields no rows: \<open>processUnit\<close> marks it failed and returns
  \<open>false\<close>, the loop of \<open>processSubject\<close> counts a unit as processed only when
  \<open>processUnit\<close> returns \<open>true\<close> or raises, and the run ends with the unit in the failed set
  and the session not flagged. When the extraction raises instead (\<open>site1_raising\<close>), the
  handler marks the unit failed and does count it, and the session is flagged in the same
  run. A second run on \<open>site1\<close> finds the unit failed, counts it, and flags the session.
  (The other half of the claim holds on every run: a session that the run flags is
  settled, as shown above.)
\<close>

theorem session_not_flagged_after_soft_failure:
  "scrapeSeries ascii_lower site1 NoFile 0 [] = Inr (first_run site1) \<and>
   hasFailed (progress (first_run site1)) QUALIFICATION_TYPE (js ''June 2019'') (js ''Physics'')
     (js ''WPH01'') \<and>
   totalUnits (stats (progress (first_run site1))) = 1 \<and>
   failedUnits (stats (progress (first_run site1))) = 1 \<and>
   \<not> isSessionCompleted (progress (first_run site1)) QUALIFICATION_TYPE (js ''June 2019'') \<and>
   scrapeSeries ascii_lower site1_raising NoFile 0 [] = Inr (first_run site1_raising) \<and>
   hasFailed (progress (first_run site1_raising)) QUALIFICATION_TYPE (js ''June 2019'')
     (js ''Physics'') (js ''WPH01'') \<and>
   isSessionCompleted (progress (first_run site1_raising)) QUALIFICATION_TYPE (js ''June 2019'') \<and>
   isSessionCompleted (progress (later_run site1 (first_run site1))) QUALIFICATION_TYPE
     (js ''June 2019'')"
  using site1_runs site1_raising_runs by simp

text \<open>
  Claim C3, as stated: a second run with the same listings leaves every counter of the
  ledger as it was. On \<open>site2\<close> the first run ends with 2 subjects and 1 unit counted; the
  second run sets the totals to the number of sessions, 0 and 0 at its start, skips both
  flagged sessions, and ends with 0 subjects and 0 units counted.
\<close>

theorem second_run_changes_totals:
  "scrapeSeries ascii_lower site2 NoFile 0 [] = Inr (first_run site2) \<and>
   scrapeSeries ascii_lower site2 (disk (first_run site2)) (clock (first_run site2))
     (artifacts (first_run site2)) = Inr (later_run site2 (first_run site2)) \<and>
   totalSubjects (stats (progress (first_run site2))) = 2 \<and>
   totalUnits (stats (progress (first_run site2))) = 1 \<and>
   totalSubjects (stats (progress (later_run site2 (first_run site2)))) = 0 \<and>
   totalUnits (stats (progress (later_run site2 (first_run site2)))) = 0"
  using site2_runs by simp

text \<open>
  Claim C3, amended. If a run ends normally and a second run starts from the ledger file,
  the clock and the artifact files it left, on the same site, then the second run ends
  normally too, makes no adapter call at the unit level (it selects no unit, selects no
  score tab and extracts nothing), writes no artifact, and leaves the completed and failed
  sets of the ledger and the counters \<open>completedUnits\<close>, \<open>failedUnits\<close> and
  \<open>totalSessions\<close> as they were. (\<open>totalSubjects\<close> and \<open>totalUnits\<close> are counted anew from
  zero over the sessions that are not skipped.)
\<close>

theorem second_run_idle:
  assumes "scrapeSeries toLowerCase site ledger now files = Inr st1"
  shows "\<exists>st2. scrapeSeries toLowerCase site (disk st1) (clock st1) (artifacts st1) = Inr st2 \<and>
           list_all (\<lambda>a. \<not> unit_level a) (trace st2) \<and>
           artifacts st2 = artifacts st1 \<and>
           completed (progress st2) = completed (progress st1) \<and>
           failed (progress st2) = failed (progress st1) \<and>
           completedUnits (stats (progress st2)) = completedUnits (stats (progress st1)) \<and>
           failedUnits (stats (progress st2)) = failedUnits (stats (progress st1)) \<and>
           totalSessions (stats (progress st2)) = totalSessions (stats (progress st1))"
proof -
  let ?lc = toLowerCase
  from assms obtain sl where sl: "sessionLinks site = Inr sl"
    by (cases "sessionLinks site") (auto simp: scrapeSeries_def Let_def)
  let ?valid = "filter valid_session sl"
  let ?n = "length ?valid"
  have nonempty: "?n \<noteq> 0"
    using assms sl by (auto simp: scrapeSeries_def Let_def split: if_splits)
  let ?st0 = "initialize \<lparr>progress = ProgressTracker, disk = ledger, clock = now,
                          artifacts = files, trace = []\<rparr>"
  let ?stA = "save (tracker (updateStats ?n 0 0) ?st0)"
  let ?stB = "process_sessions ?lc site ?n ?valid 0 ?stA"
  have st1: "st1 = save ?stB"
    using assms sl nonempty by (simp add: scrapeSeries_def Let_def)
  have nA: "totalSessions (stats (progress ?stA)) = ?n"
    by (simp add: save_def tracker_def updateStats_def Let_def)
  from process_sessions_grows[OF nA refl, of ?lc site ?valid 0]
  have gB: "grows (progress ?stA) (progress ?stB)"
    and setB: "\<forall>s\<in>set ?valid. isSessionCompleted (progress ?stB) QUALIFICATION_TYPE s \<or>
                 session_settled ?lc site (progress ?stB) s" by simp_all
  have qB1: "quiet ?stB st1" unfolding st1 by (rule quiet_save)
  have n1: "totalSessions (stats (progress st1)) = ?n"
    using gB nA qB1 by (simp add: grows_def quiet_def)
  have set1: "\<forall>s\<in>set ?valid. isSessionCompleted (progress st1) QUALIFICATION_TYPE s \<or>
                 session_settled ?lc site (progress st1) s"
    using setB qB1 quiet_session_settled[OF qB1] by (auto simp: quiet_def)
  have disk1: "disk st1 = Doc (Full (progress st1))"
    unfolding st1 by (simp add: save_def Let_def)
  let ?st0' = "\<lparr>progress = progress st1, disk = disk st1, clock = clock st1,
                artifacts = artifacts st1, trace = []\<rparr>"
  have init: "initialize \<lparr>progress = ProgressTracker, disk = disk st1, clock = clock st1,
                          artifacts = artifacts st1, trace = []\<rparr> = ?st0'"
    by (simp add: initialize_def disk1)
  let ?stA' = "save (tracker (updateStats ?n 0 0) ?st0')"
  let ?stB' = "process_sessions ?lc site ?n ?valid 0 ?stA'"
  let ?st2 = "save ?stB'"
  have run2: "scrapeSeries ?lc site (disk st1) (clock st1) (artifacts st1) = Inr ?st2"
    using sl nonempty by (simp add: scrapeSeries_def Let_def init)
  have q0A: "quiet ?st0' ?stA'"
    by (rule quiet_save_updateStats) (simp add: n1)
  have nA': "totalSessions (stats (progress ?stA')) = ?n"
    by (simp add: save_def tracker_def updateStats_def Let_def)
  have setA': "\<forall>s\<in>set ?valid. isSessionCompleted (progress ?stA') QUALIFICATION_TYPE s \<or>
                 session_settled ?lc site (progress ?stA') s"
    using set1 q0A quiet_session_settled[OF q0A] by (auto simp: quiet_def)
  have qAB: "quiet ?stA' ?stB'" using nA' setA' by (rule process_sessions_quiet)
  have qB2: "quiet ?stB' ?st2" by (rule quiet_save)
  have "quiet ?st0' ?st2" using q0A qAB qB2 by (blast intro: quiet_trans)
  then have "list_all (\<lambda>a. \<not> unit_level a) (trace ?st2) \<and>
           artifacts ?st2 = artifacts st1 \<and>
           completed (progress ?st2) = completed (progress st1) \<and>
           failed (progress ?st2) = failed (progress st1) \<and>
           completedUnits (stats (progress ?st2)) = completedUnits (stats (progress st1)) \<and>
           failedUnits (stats (progress ?st2)) = failedUnits (stats (progress st1)) \<and>
           totalSessions (stats (progress ?st2)) = totalSessions (stats (progress st1))"
    by (auto simp: quiet_def)
  with run2 show ?thesis by blast
qed

text \<open>The theorem for the two runs on \<open>site2\<close>.\<close>

theorem second_run_idle_witness:
  "scrapeSeries ascii_lower site2 NoFile 0 [] = Inr (first_run site2) \<and>
   (\<exists>st2. scrapeSeries ascii_lower site2 (disk (first_run site2)) (clock (first_run site2))
            (artifacts (first_run site2)) = Inr st2 \<and>
          list_all (\<lambda>a. \<not> unit_level a) (trace st2) \<and>
          artifacts st2 = artifacts (first_run site2) \<and>
          completed (progress st2) = completed (progress (first_run site2)) \<and>
          failed (progress st2) = failed (progress (first_run site2)) \<and>
          completedUnits (stats (progress st2)) = 2 \<and>
          failedUnits (stats (progress st2)) = 0 \<and>
          totalSessions (stats (progress st2)) = 2)"
  using second_run_idle [of ascii_lower site2 NoFile 0 "[]" "first_run site2"] site2_runs(1,4)
  by simp

text \<open>
  Claim C9, as stated: whenever \<open>totalUnits\<close> is positive the percentage reported is
  \<open>100 * completedUnits / totalUnits\<close> rounded to the nearest integer. For a ledger with 23
  completed units of 40 counted units the exact value is 57.5, which rounds to 58; the
  quotient \<open>23 / 40\<close> in double precision is a little below 0.575, its product with 100 is
  a little below 57.5, and the text reported is \<open>57%\<close>.
\<close>

theorem getSummary_not_exact_rounding:
  "0 < totalUnits (stats (ledger_with 23 40)) \<and>
   completedUnits (stats (ledger_with 23 40)) = 23 \<and>
   totalUnits (stats (ledger_with 23 40)) = 40 \<and>
   exact_percent 23 40 = 58 \<and>
   percent 23 40 = 57 \<and>
   progress_str (getSummary (ledger_with 23 40)) = js ''57%''"
proof -
  have e: "exact_percent 23 40 = 58" by code_simp
  have v: "percent 23 40 = 57" by code_simp
  have d: "digits 57 = js ''57''" by code_simp
  show ?thesis using e v d
    by (simp add: getSummary_def ledger_with_def ProgressTracker_def js_def)
qed

text \<open>
  Claim C9, amended. \<open>getSummary\<close> does not clamp the percentage. While \<open>totalUnits\<close> is
  positive and below \<open>2 ^ 53\<close> and \<open>400 * completedUnits\<close> is below \<open>2 ^ 53\<close>, the text it
  reports is the decimal text of \<^verbatim>\<open>Math.round((completedUnits / totalUnits) * 100)\<close>,
  computed in double precision, followed by \<open>%\<close>; this number is a natural number below
  \<open>2 ^ 53\<close>, and it is \<open>100 * completedUnits / totalUnits\<close> rounded to the nearest integer,
  except that it may be the integer below when the exact value lies halfway between two
  integers (1 of 8 units is 12.5 percent and is reported as 13, 23 of 40 units are 57.5
  percent and are reported as 57). It is at least \<open>100 * k\<close> whenever \<open>completedUnits\<close> is at least \<open>k\<close> times
  \<open>totalUnits\<close>, so that percentages above 100 are reported. Such states are reached:
  \<open>updateStats\<close> overwrites the three totals and nothing else, and a first run on \<open>site2\<close>
  ends with 2 completed units of 1 counted unit and reports \<open>200%\<close>; a later run on
  \<open>site3\<close> starts from those 2 completed units, sets the totals anew, and ends with 3
  completed units of 1 counted unit: \<open>300%\<close>.
\<close>

theorem getSummary_unclamped:
  "(0 < totalUnits (stats p) \<and> totalUnits (stats p) < 2 ^ 53 \<and>
    400 * completedUnits (stats p) < 2 ^ 53 \<longrightarrow>
      progress_str (getSummary p) =
        digits (nat (percent (completedUnits (stats p)) (totalUnits (stats p)))) @ js ''%'') \<and>
   (0 < t \<and> t < 2 ^ 53 \<and> 400 * c < 2 ^ 53 \<longrightarrow>
      0 \<le> percent c t \<and> percent c t < 2 ^ 53 \<and>
      (percent c t = exact_percent c t \<or>
       percent c t = exact_percent c t - 1 \<and> frac (100 * of_nat c / of_nat t :: rat) = 1 / 2)) \<and>
   percent 1 8 = 13 \<and> exact_percent 1 8 = 13 \<and>
   percent 23 40 = 57 \<and> exact_percent 23 40 = 58 \<and>
   (0 < t \<and> t < 2 ^ 53 \<and> c < 2 ^ 53 \<and> 1 \<le> k \<and> 100 * k < 2 ^ 53 \<and> k * t \<le> c \<longrightarrow>
      100 * int k \<le> percent c t) \<and>
   stats (updateStats a b d p) =
     (stats p)\<lparr>totalSessions := a, totalSubjects := b, totalUnits := d\<rparr> \<and>
   scrapeSeries ascii_lower site2 NoFile 0 [] = Inr (first_run site2) \<and>
   completedUnits (stats (progress (first_run site2))) = 2 \<and>
   totalUnits (stats (progress (first_run site2))) = 1 \<and>
   progress_str (getSummary (progress (first_run site2))) = js ''200%'' \<and>
   scrapeSeries ascii_lower site3 (disk (first_run site2)) (clock (first_run site2))
     (artifacts (first_run site2)) = Inr (later_run site3 (first_run site2)) \<and>
   completedUnits (stats (progress (later_run site3 (first_run site2)))) = 3 \<and>
   totalUnits (stats (progress (later_run site3 (first_run site2)))) = 1 \<and>
   progress_str (getSummary (progress (later_run site3 (first_run site2)))) = js ''300%''"
proof -
  have shown: "0 < totalUnits (stats p) \<and> totalUnits (stats p) < 2 ^ 53 \<and>
    400 * completedUnits (stats p) < 2 ^ 53 \<longrightarrow>
      progress_str (getSummary p) =
        digits (nat (percent (completedUnits (stats p)) (totalUnits (stats p)))) @ js ''%''"
    by (simp add: getSummary_def)
  have exact: "0 < t \<and> t < 2 ^ 53 \<and> 400 * c < 2 ^ 53 \<longrightarrow>
      0 \<le> percent c t \<and> percent c t < 2 ^ 53 \<and>
      (percent c t = exact_percent c t \<or>
       percent c t = exact_percent c t - 1 \<and> frac (100 * of_nat c / of_nat t :: rat) = 1 / 2)"
    using percent_bounds[of t c] percent_exact[of t c] by blast
  have halfway: "percent 1 8 = 13 \<and> exact_percent 1 8 = 13 \<and>
   percent 23 40 = 57 \<and> exact_percent 23 40 = 58"
    by code_simp
  have above: "0 < t \<and> t < 2 ^ 53 \<and> c < 2 ^ 53 \<and> 1 \<le> k \<and> 100 * k < 2 ^ 53 \<and> k * t \<le> c \<longrightarrow>
      100 * int k \<le> percent c t"
    using percent_ge[of t k c] by blast
  have totals: "stats (updateStats a b d p) =
     (stats p)\<lparr>totalSessions := a, totalSubjects := b, totalUnits := d\<rparr>"
    by (simp add: updateStats_def)
  have runs: "scrapeSeries ascii_lower site2 NoFile 0 [] = Inr (first_run site2) \<and>
   completedUnits (stats (progress (first_run site2))) = 2 \<and>
   totalUnits (stats (progress (first_run site2))) = 1 \<and>
   progress_str (getSummary (progress (first_run site2))) = js ''200%'' \<and>
   scrapeSeries ascii_lower site3 (disk (first_run site2)) (clock (first_run site2))
     (artifacts (first_run site2)) = Inr (later_run site3 (first_run site2)) \<and>
   completedUnits (stats (progress (later_run site3 (first_run site2)))) = 3 \<and>
   totalUnits (stats (progress (later_run site3 (first_run site2)))) = 1 \<and>
   progress_str (getSummary (progress (later_run site3 (first_run site2)))) = js ''300%''"
    using site2_runs by simp
  from shown exact halfway above totals runs show ?thesis by blast
qed

text \<open>
  The theorem for a ledger with 5 completed units of 2 counted units: the percentage is
  250, the exact value, and at least \<open>100 * 2\<close>.
\<close>

theorem getSummary_unclamped_witness:
  "(0::nat) < 2 \<and> (2::nat) < 2 ^ 53 \<and> (400::nat) * 5 < 2 ^ 53 \<and> (5::nat) < 2 ^ 53 \<and>
   (1::nat) \<le> 2 \<and> (100::nat) * 2 < 2 ^ 53 \<and> (2::nat) * 2 \<le> 5 \<and>
   totalUnits (stats (ledger_with 5 2)) = 2 \<and> completedUnits (stats (ledger_with 5 2)) = 5 \<and>
   100 * int 2 \<le> percent 5 2 \<and> percent 5 2 = 250 \<and> exact_percent 5 2 = 250 \<and>
   progress_str (getSummary (ledger_with 5 2)) = js ''250%''"
proof -
  have v: "percent 5 2 = 250" by code_simp
  have e: "exact_percent 5 2 = 250" by code_simp
  have d: "digits 250 = js ''250''" by code_simp
  have h: "(0::nat) < 2 \<and> (2::nat) < 2 ^ 53 \<and> (400::nat) * 5 < 2 ^ 53 \<and> (5::nat) < 2 ^ 53 \<and>
   (1::nat) \<le> 2 \<and> (100::nat) * 2 < 2 ^ 53 \<and> (2::nat) * 2 \<le> 5" by simp
  have s: "totalUnits (stats (ledger_with 5 2)) = 2 \<and> completedUnits (stats (ledger_with 5 2)) = 5"
    by (simp add: ledger_with_def)
  from getSummary_unclamped [of "ledger_with 5 2" 2 5 2] h v e d s
  show ?thesis by (simp add: js_def)
qed

end
